theory Spec2Isabelle
  imports Complex_Main "HOL-Library.Multiset" "HOL-Library.Log_Nat"
begin

section \<open>JavaScript numbers\<close>

text \<open>
  A JavaScript number is an IEEE 754 binary64 value. The finite ones are taken here as
  the rationals they denote, and every arithmetic operation computes the exact result and
  rounds it to the nearest double, ties to the even significand, as the language does.
  A result too large for a double is an infinity; \<open>NaN\<close> comes from a division of zero
  by zero and from the undefined operations on infinities. The sign of zero is not
  modelled: there is one zero (a \<open>-0\<close> of the dataset is read as \<open>0\<close>, which it equals
  under \<open>==\<close> and \<open>===\<close>), and a zero divisor counts as the positive zero.
\<close>

subsection \<open>Rounding to binary64\<close>

text \<open>The binary exponent of a positive rational: \<open>2 ^ flog2 m \<le> m < 2 ^ (flog2 m + 1)\<close>.\<close>

definition flog2 :: "rat \<Rightarrow> int" where
  "flog2 m = (if 1 \<le> m then bitlen \<lfloor>m\<rfloor> - 1 else - bitlen (\<lceil>1 / m\<rceil> - 1))"

text \<open>The nearest integer, the even one of the two when they are equally near.\<close>

definition rne :: "rat \<Rightarrow> int" where
  "rne x =
     (let n = \<lfloor>x\<rfloor>; f = x - of_int n
      in if f < 1 / 2 then n else if 1 / 2 < f then n + 1 else if even n then n else n + 1)"

text \<open>
  The nearest double of a rational. The significand has 53 bits, so the spacing of the
  doubles around \<open>r\<close> is \<open>2 ^ (e - 52)\<close> for the exponent \<open>e\<close> of \<open>r\<close>; below the least
  normal exponent \<open>-1022\<close> the spacing stays \<open>2 ^ -1074\<close> (the subnormal numbers). A
  rounded magnitude of \<open>2 ^ 1024\<close> or more is an overflow, here \<open>None\<close>.
\<close>

definition round64 :: "rat \<Rightarrow> rat option" where
  "round64 r =
     (if r = 0 then Some 0
      else
        (let m = \<bar>r\<bar>;
             e = max (flog2 m) (- 1022);
             q = 2 powi (e - 52);
             y = of_int (rne (m / q)) * q
         in if 2 powi 1024 \<le> y then None else Some (sgn r * y)))"

text \<open>
  The doubles are the rationals that rounding leaves alone; they are the type of the
  finite numbers, ordered by their values.
\<close>

definition is_double :: "rat \<Rightarrow> bool" where
  "is_double r = (round64 r = Some r)"

typedef double = "{r :: rat. is_double r}"
  morphisms val Abs_double
  by (rule exI [of _ 0]) (simp add: is_double_def round64_def)

instantiation double :: linorder
begin

definition less_eq_double :: "double \<Rightarrow> double \<Rightarrow> bool" where
  "less_eq_double a b = (val a \<le> val b)"

definition less_double :: "double \<Rightarrow> double \<Rightarrow> bool" where
  "less_double a b = (val a < val b)"

instance
  by standard (auto simp: less_eq_double_def less_double_def val_inject)

end

text \<open>The double that a decimal literal within the range of the doubles denotes.\<close>

definition dbl :: "rat \<Rightarrow> double" where
  "dbl r = Abs_double (case round64 r of Some y \<Rightarrow> y | None \<Rightarrow> 0)"

subsection \<open>Numbers and their arithmetic\<close>

datatype jsnum = Fin double | PosInf | NegInf | NaN

text \<open>The sign of an infinite result: positive when the signs agree.\<close>

definition js_inf :: "bool \<Rightarrow> jsnum" where
  "js_inf positive = (if positive then PosInf else NegInf)"

text \<open>The exact result of an operation on finite numbers, rounded.\<close>

definition fl :: "rat \<Rightarrow> jsnum" where
  "fl r = (case round64 r of None \<Rightarrow> js_inf (0 < r) | Some y \<Rightarrow> Fin (Abs_double y))"

fun js_add :: "jsnum \<Rightarrow> jsnum \<Rightarrow> jsnum" where
  "js_add (Fin a) (Fin b) = fl (val a + val b)"
| "js_add NaN _ = NaN"
| "js_add _ NaN = NaN"
| "js_add PosInf NegInf = NaN"
| "js_add NegInf PosInf = NaN"
| "js_add PosInf _ = PosInf"
| "js_add _ PosInf = PosInf"
| "js_add NegInf _ = NegInf"
| "js_add _ NegInf = NegInf"

fun js_sub :: "jsnum \<Rightarrow> jsnum \<Rightarrow> jsnum" where
  "js_sub (Fin a) (Fin b) = fl (val a - val b)"
| "js_sub NaN _ = NaN"
| "js_sub _ NaN = NaN"
| "js_sub PosInf PosInf = NaN"
| "js_sub NegInf NegInf = NaN"
| "js_sub PosInf _ = PosInf"
| "js_sub _ NegInf = PosInf"
| "js_sub NegInf _ = NegInf"
| "js_sub _ PosInf = NegInf"

fun js_mul :: "jsnum \<Rightarrow> jsnum \<Rightarrow> jsnum" where
  "js_mul (Fin a) (Fin b) = fl (val a * val b)"
| "js_mul NaN _ = NaN"
| "js_mul _ NaN = NaN"
| "js_mul (Fin a) PosInf = (if val a = 0 then NaN else js_inf (0 < val a))"
| "js_mul (Fin a) NegInf = (if val a = 0 then NaN else js_inf (val a < 0))"
| "js_mul PosInf (Fin b) = (if val b = 0 then NaN else js_inf (0 < val b))"
| "js_mul NegInf (Fin b) = (if val b = 0 then NaN else js_inf (val b < 0))"
| "js_mul PosInf PosInf = PosInf"
| "js_mul PosInf NegInf = NegInf"
| "js_mul NegInf PosInf = NegInf"
| "js_mul NegInf NegInf = PosInf"

fun js_div :: "jsnum \<Rightarrow> jsnum \<Rightarrow> jsnum" where
  "js_div (Fin a) (Fin b) =
     (if val b \<noteq> 0 then fl (val a / val b)
      else if val a = 0 then NaN
      else js_inf (0 < val a))"
| "js_div NaN _ = NaN"
| "js_div _ NaN = NaN"
| "js_div (Fin a) _ = Fin (dbl 0)"
| "js_div PosInf (Fin b) = js_inf (0 \<le> val b)"
| "js_div NegInf (Fin b) = js_inf (val b < 0)"
| "js_div _ _ = NaN"

text \<open>The comparisons \<open><\<close> and \<open>>=\<close>: every comparison with \<open>NaN\<close> is false.\<close>

fun js_lt :: "jsnum \<Rightarrow> jsnum \<Rightarrow> bool" where
  "js_lt NaN _ = False"
| "js_lt _ NaN = False"
| "js_lt (Fin a) (Fin b) = (a < b)"
| "js_lt _ NegInf = False"
| "js_lt PosInf _ = False"
| "js_lt _ _ = True"

fun js_ge :: "jsnum \<Rightarrow> jsnum \<Rightarrow> bool" where
  "js_ge NaN _ = False"
| "js_ge _ NaN = False"
| "js_ge a b = (\<not> js_lt a b)"

definition js_gt :: "jsnum \<Rightarrow> jsnum \<Rightarrow> bool" where
  "js_gt a b = js_lt b a"

definition js_le :: "jsnum \<Rightarrow> jsnum \<Rightarrow> bool" where
  "js_le a b = js_ge b a"

section \<open>Arrays and errors\<close>

text \<open>
  Reading an array out of range gives \<open>undefined\<close> (here \<open>None\<close>); reading a property
  of \<open>undefined\<close> throws a \<open>TypeError\<close>.
\<close>

datatype error = TypeError

definition js_index :: "'a list \<Rightarrow> int \<Rightarrow> 'a option" where
  "js_index xs i = (if 0 \<le> i \<and> i < int (length xs) then Some (xs ! nat i) else None)"

text \<open>
  A sample of a series is the two-element array \<open>[year, value]\<close>. The dataset is a JSON
  document, so both are finite numbers.
\<close>

type_synonym sample = "double \<times> double"

section \<open>The bisector\<close>

text \<open>
  Modelled from the spec: the body of \<open>d3.bisector(...).left\<close> is missing from the
  sources (it is the d3 library's). The spec asks for the leftmost index whose year is
  not below the query year, found by binary search; the model is the library's loop
  \<^verbatim>\<open>while (lo < hi) { var mid = lo + hi >>> 1;
    if (compare(a[mid], x) < 0) lo = mid + 1; else hi = mid; } return lo;\<close>
  where \<open>compare(d, x)\<close> is \<open>ascending(d[0], x)\<close> for the accessor of the source,
  \<^verbatim>\<open>function(d) { return d[0]; }\<close>. Indices are integers, and the unsigned shift
  is the floor of half the sum, which it is for every sum of two indices of an array
  below \<open>2 ^ 32\<close>.
\<close>

definition ascending :: "double \<Rightarrow> double \<Rightarrow> jsnum" where
  "ascending a b =
     (if a < b then Fin (dbl (- 1)) else if a > b then Fin (dbl 1)
      else if a \<ge> b then Fin (dbl 0) else NaN)"

function bisect_left :: "sample list \<Rightarrow> double \<Rightarrow> int \<Rightarrow> int \<Rightarrow> error + int" where
  "bisect_left a x lo hi =
     (if lo < hi then
        (let mid = (lo + hi) div 2 in
           case js_index a mid of
             None \<Rightarrow> Inl TypeError
           | Some d \<Rightarrow>
               if js_lt (ascending (fst d) x) (Fin (dbl 0))
               then bisect_left a x (mid + 1) hi
               else bisect_left a x lo mid)
      else Inr lo)"
  by pat_completeness auto
termination
  by (relation "measure (\<lambda>(a, x, lo, hi). nat (hi - lo))") auto

declare bisect_left.simps [simp del]

section \<open>Interpolating one series\<close>

text \<open>
  \<^verbatim>\<open>function interpolateValues(values, year) {
    var i = bisect.left(values, year, 0, values.length - 1),
        a = values[i];
    if (i > 0) {
      var b = values[i - 1],
          t = (year - a[0]) / (b[0] - a[0]);
      return a[1] * (1 - t) + b[1] * t;
    }
    return a[1];
  }\<close>
\<close>

definition interpolateValues :: "sample list \<Rightarrow> double \<Rightarrow> error + jsnum" where
  "interpolateValues values year =
     (case bisect_left values year 0 (int (length values) - 1) of
        Inl e \<Rightarrow> Inl e
      | Inr i \<Rightarrow>
          (case js_index values i of
             None \<Rightarrow> Inl TypeError
           | Some a \<Rightarrow>
               if i > 0 then
                 (case js_index values (i - 1) of
                    None \<Rightarrow> Inl TypeError
                  | Some b \<Rightarrow>
                      (let t = js_div (js_sub (Fin year) (Fin (fst a)))
                                      (js_sub (Fin (fst b)) (Fin (fst a)))
                       in Inr (js_add (js_mul (Fin (snd a)) (js_sub (Fin (dbl 1)) t))
                                      (js_mul (Fin (snd b)) t))))
               else Inr (Fin (snd a))))"

section \<open>Composing a frame\<close>

text \<open>
  A nation of the dataset carries three series; the snapshot of a nation at one year
  carries three numbers. \<open>nations\<close> is a variable of the enclosing callback in the
  source and a parameter here.
  \<^verbatim>\<open>function interpolateData(year) {
    return nations.map(function(d) {
      return {
        name: d.name,
        region: d.region,
        income: interpolateValues(d.income, year),
        population: interpolateValues(d.population, year),
        lifeExpectancy: interpolateValues(d.lifeExpectancy, year)
      };
    });
  }\<close>
  An exception thrown for one nation leaves \<open>map\<close>, and the whole call.
\<close>

record nation =
  name :: string
  region :: string
  income :: "sample list"
  population :: "sample list"
  lifeExpectancy :: "sample list"

record snapshot =
  name :: string
  region :: string
  income :: jsnum
  population :: jsnum
  lifeExpectancy :: jsnum

fun interpolateData :: "nation list \<Rightarrow> double \<Rightarrow> error + snapshot list" where
  "interpolateData [] year = Inr []"
| "interpolateData (d # ds) year =
     (case interpolateValues (nation.income d) year of
        Inl e \<Rightarrow> Inl e
      | Inr inc \<Rightarrow>
     (case interpolateValues (nation.population d) year of
        Inl e \<Rightarrow> Inl e
      | Inr pop \<Rightarrow>
     (case interpolateValues (nation.lifeExpectancy d) year of
        Inl e \<Rightarrow> Inl e
      | Inr life \<Rightarrow>
     (case interpolateData ds year of
        Inl e \<Rightarrow> Inl e
      | Inr rest \<Rightarrow>
          Inr (\<lparr>snapshot.name = nation.name d, region = nation.region d, income = inc,
                population = pop, lifeExpectancy = life\<rparr> # rest)))))"

section \<open>Draw order\<close>

text \<open>
  \<^verbatim>\<open>function radius(d) { return d.population; }\<close> and
  \<^verbatim>\<open>function order(a, b) { return radius(b) - radius(a); }\<close>
\<close>

definition radius :: "snapshot \<Rightarrow> jsnum" where
  "radius d = snapshot.population d"

definition order :: "snapshot \<Rightarrow> snapshot \<Rightarrow> jsnum" where
  "order a b = js_sub (radius b) (radius a)"

text \<open>
  Modelled from the spec: the sort that \<open>.sort(order)\<close> runs is missing from the
  sources (it is \<open>Array.prototype.sort\<close> of the JavaScript engine, called by d3). The
  spec asks for a stable sort by the pairwise comparator. The model is a stable
  insertion sort that reads the comparator as the language does: a result above zero
  puts the first argument after the second, and a \<open>NaN\<close> result counts as zero.
\<close>

definition sort_compare :: "('a \<Rightarrow> 'a \<Rightarrow> jsnum) \<Rightarrow> 'a \<Rightarrow> 'a \<Rightarrow> jsnum" where
  "sort_compare comparefn x y = (case comparefn x y of NaN \<Rightarrow> Fin (dbl 0) | v \<Rightarrow> v)"

fun insert_sorted :: "('a \<Rightarrow> 'a \<Rightarrow> jsnum) \<Rightarrow> 'a \<Rightarrow> 'a list \<Rightarrow> 'a list" where
  "insert_sorted comparefn x [] = [x]"
| "insert_sorted comparefn x (y # ys) =
     (if js_gt (sort_compare comparefn x y) (Fin (dbl 0))
      then y # insert_sorted comparefn x ys
      else x # y # ys)"

fun array_sort :: "('a \<Rightarrow> 'a \<Rightarrow> jsnum) \<Rightarrow> 'a list \<Rightarrow> 'a list" where
  "array_sort comparefn [] = []"
| "array_sort comparefn (x # xs) = insert_sorted comparefn x (array_sort comparefn xs)"

section \<open>The vocabulary of the specification\<close>

text \<open>A series sorted ascending by year, with and without repeated years.\<close>

definition years_sorted :: "sample list \<Rightarrow> bool" where
  "years_sorted s = sorted_wrt (\<lambda>a b. fst a \<le> fst b) s"

definition years_ascending :: "sample list \<Rightarrow> bool" where
  "years_ascending s = sorted_wrt (\<lambda>a b. fst a < fst b) s"

definition values_increasing :: "sample list \<Rightarrow> bool" where
  "values_increasing s = sorted_wrt (\<lambda>a b. snd a < snd b) s"

definition js_finite :: "jsnum \<Rightarrow> bool" where
  "js_finite v = (case v of Fin r \<Rightarrow> True | _ \<Rightarrow> False)"

text \<open>
  The two lines of the source inside \<^verbatim>\<open>if (i > 0)\<close>,
  \<^verbatim>\<open>t = (year - a[0]) / (b[0] - a[0])\<close> and
  \<^verbatim>\<open>a[1] * (1 - t) + b[1] * t\<close>, as one expression of the samples \<open>a\<close> and \<open>b\<close>.
\<close>

definition interpolation :: "sample \<Rightarrow> sample \<Rightarrow> double \<Rightarrow> jsnum" where
  "interpolation a b year =
     (let t = js_div (js_sub (Fin year) (Fin (fst a))) (js_sub (Fin (fst b)) (Fin (fst a)))
      in js_add (js_mul (Fin (snd a)) (js_sub (Fin (dbl 1)) t)) (js_mul (Fin (snd b)) t))"

text \<open>
  None of the seven operations of that expression rounds: each exact result is a double.
\<close>

definition exact_interpolation :: "sample \<Rightarrow> sample \<Rightarrow> double \<Rightarrow> bool" where
  "exact_interpolation a b year =
     (let n = val year - val (fst a);
          d = val (fst b) - val (fst a);
          t = n / d;
          u = 1 - t;
          p = val (snd a) * u;
          q = val (snd b) * t
      in is_double n \<and> is_double d \<and> is_double t \<and> is_double u \<and>
         is_double p \<and> is_double q \<and> is_double (p + q))"

text \<open>
  The interpolation as the specification words it, with \<open>a\<close> the sample at or after
  the year and \<open>b\<close> the one before, and the fraction \<open>t\<close> measured from the earlier
  sample: \<open>t = (year - b.year) / (a.year - b.year)\<close> and
  \<open>b.value * (1 - t) + a.value * t\<close>. First computed on JavaScript numbers, then in
  exact arithmetic.
\<close>

definition spec_interpolate :: "sample \<Rightarrow> sample \<Rightarrow> double \<Rightarrow> jsnum" where
  "spec_interpolate a b year =
     (let t = js_div (js_sub (Fin year) (Fin (fst b))) (js_sub (Fin (fst a)) (Fin (fst b)))
      in js_add (js_mul (Fin (snd b)) (js_sub (Fin (dbl 1)) t)) (js_mul (Fin (snd a)) t))"

definition exact_interpolate :: "sample \<Rightarrow> sample \<Rightarrow> double \<Rightarrow> rat" where
  "exact_interpolate a b year =
     (let t = (val year - val (fst b)) / (val (fst a) - val (fst b))
      in val (snd b) * (1 - t) + val (snd a) * t)"

section \<open>Rounding to a double\<close>

subsection \<open>The exponent and the nearest integer\<close>

lemma pow2_less_iff: "(2::rat) powi a < 2 powi b \<longleftrightarrow> a < b"
proof
  assume "(2::rat) powi a < 2 powi b"
  show "a < b"
  proof (rule ccontr)
    assume "\<not> a < b"
    then have "b \<le> a" by simp
    then have "(2::rat) powi b \<le> 2 powi a" by (intro power_int_increasing) simp_all
    with \<open>(2::rat) powi a < 2 powi b\<close> show False by simp
  qed
next
  assume "a < b"
  then show "(2::rat) powi a < 2 powi b" by (intro power_int_strict_increasing) simp_all
qed

lemma pow2_le_iff: "(2::rat) powi a \<le> 2 powi b \<longleftrightarrow> a \<le> b"
  using pow2_less_iff [of b a] by (auto simp: not_less [symmetric])

lemma pow2_pos: "0 < (2::rat) powi a"
  by simp

lemma pow2_nat: "0 \<le> a \<Longrightarrow> (2::rat) powi a = of_int (2 ^ nat a)"
  by (simp add: power_int_nonneg_exp)

lemma flog2_bounds:
  assumes "0 < m"
  shows "2 powi flog2 m \<le> m" and "m < 2 powi (flog2 m + 1)"
proof -
  have "2 powi flog2 m \<le> m \<and> m < 2 powi (flog2 m + 1)"
  proof (cases "1 \<le> m")
    case True
    define N where "N = \<lfloor>m\<rfloor>"
    have N: "0 < N" using True by (simp add: N_def)
    have b1: "1 \<le> bitlen N" using N bitlen_eq_zero_iff [of N] bitlen_nonneg [of N] by linarith
    from bitlen_bounds [OF N]
    have lo: "2 ^ nat (bitlen N - 1) \<le> N" and hi: "N < 2 ^ nat (bitlen N)" by simp_all
    have f: "flog2 m = bitlen N - 1" using True by (simp add: flog2_def N_def)
    have "(2::rat) powi (bitlen N - 1) = of_int (2 ^ nat (bitlen N - 1))"
      using b1 by (intro pow2_nat) simp
    also have "\<dots> \<le> of_int N" using lo by (simp only: of_int_le_iff)
    also have "\<dots> \<le> m" by (simp add: N_def)
    finally have 1: "2 powi flog2 m \<le> m" by (simp add: f)
    have "m < of_int (N + 1)" unfolding N_def by linarith
    also have "\<dots> \<le> of_int (2 ^ nat (bitlen N))" using hi by (simp only: of_int_le_iff)
    also have "\<dots> = (2::rat) powi (bitlen N)" using b1 by (intro pow2_nat [symmetric]) simp
    finally have 2: "m < 2 powi (flog2 m + 1)" by (simp add: f)
    from 1 2 show ?thesis ..
  next
    case False
    define s where "s = 1 / m"
    have s: "1 < s" using False assms by (simp add: s_def)
    have m: "m = 1 / s" using assms by (simp add: s_def)
    define M where "M = \<lceil>s\<rceil> - 1"
    have M: "0 < M" using s by (simp add: M_def)
    have Ms: "of_int M < s" "s \<le> of_int (M + 1)" unfolding M_def by linarith+
    have b1: "1 \<le> bitlen M" using M bitlen_eq_zero_iff [of M] bitlen_nonneg [of M] by linarith
    from bitlen_bounds [OF M]
    have lo: "2 ^ nat (bitlen M - 1) \<le> M" and hi: "M < 2 ^ nat (bitlen M)" by simp_all
    have f: "flog2 m = - bitlen M" using False by (simp add: flog2_def M_def s_def)
    have "s \<le> of_int (M + 1)" by (rule Ms)
    also have "\<dots> \<le> of_int (2 ^ nat (bitlen M))" using hi by (simp only: of_int_le_iff)
    also have "\<dots> = (2::rat) powi (bitlen M)" using b1 by (intro pow2_nat [symmetric]) simp
    finally have "s \<le> 2 powi bitlen M" .
    then have "1 / (2 powi bitlen M) \<le> 1 / s"
      using s by (intro divide_left_mono) simp_all
    also have "1 / s = m" by (simp add: m)
    finally have "1 / (2 powi bitlen M) \<le> m" .
    moreover have "(2::rat) powi flog2 m = 1 / (2 powi bitlen M)"
      by (simp only: f power_int_minus_divide)
    ultimately have 1: "2 powi flog2 m \<le> m" by simp
    have "(2::rat) powi (bitlen M - 1) = of_int (2 ^ nat (bitlen M - 1))"
      using b1 by (intro pow2_nat) simp
    also have "\<dots> \<le> of_int M" using lo by (simp only: of_int_le_iff)
    also have "\<dots> < s" by (rule Ms)
    finally have "2 powi (bitlen M - 1) < s" .
    moreover have "0 < s * 2 powi (bitlen M - 1)"
      using s by (intro mult_pos_pos) simp_all
    ultimately have "1 / s < 1 / (2 powi (bitlen M - 1))"
      by (intro divide_strict_left_mono) simp_all
    also have "1 / ((2::rat) powi (bitlen M - 1)) = 2 powi (- (bitlen M - 1))"
      by (simp only: power_int_minus_divide)
    also have "- (bitlen M - 1) = flog2 m + 1" by (simp add: f)
    finally have "1 / s < 2 powi (flog2 m + 1)" .
    moreover have "1 / s = m" by (simp add: m)
    ultimately have 2: "m < 2 powi (flog2 m + 1)" by simp
    from 1 2 show ?thesis ..
  qed
  then show "2 powi flog2 m \<le> m" and "m < 2 powi (flog2 m + 1)" by simp_all
qed

lemma flog2_less: "0 < m \<Longrightarrow> m < 2 powi k \<Longrightarrow> flog2 m < k"
  using flog2_bounds(1) [of m] pow2_less_iff [of "flog2 m" k] by simp

lemma rne_of_int: "rne (of_int n) = n"
  by (simp add: rne_def)

lemma rne_ge: "of_int k \<le> x \<Longrightarrow> k \<le> rne x"
proof -
  assume "of_int k \<le> x"
  then have "k \<le> \<lfloor>x\<rfloor>" by (simp add: le_floor_iff)
  then show ?thesis by (simp add: rne_def Let_def)
qed

lemma rne_le: "x \<le> of_int k \<Longrightarrow> rne x \<le> k"
proof -
  assume le: "x \<le> of_int k"
  show ?thesis
  proof (cases "x = of_int k")
    case True
    then show ?thesis by (simp add: rne_of_int)
  next
    case False
    with le have "x < of_int k" by simp
    then have "\<lfloor>x\<rfloor> < k" by (simp add: floor_less_iff)
    then show ?thesis by (simp add: rne_def Let_def)
  qed
qed

subsection \<open>Rounded numbers are doubles\<close>

lemma pow2_add: "(2::rat) powi (a + b) = 2 powi a * 2 powi b"
  by (simp add: power_int_add)

lemma pow2_split: "(2::rat) powi a = 2 powi b * 2 powi (a - b)"
  using pow2_add [of b "a - b"] by simp

lemma round64_zero: "round64 0 = Some 0"
  by (simp add: round64_def)

lemma round64_minus: "round64 (- r) = map_option uminus (round64 r)"
  by (simp add: round64_def Let_def)

lemma round64_pos:
  assumes "0 < r"
  shows "round64 r =
     (let e = max (flog2 r) (- 1022); q = 2 powi (e - 52); y = of_int (rne (r / q)) * q
      in if 2 powi 1024 \<le> y then None else Some y)"
  using assms by (simp add: round64_def Let_def)

text \<open>A multiple of the quantum of its binade, below the next binade, is left alone.\<close>

lemma round64_grid:
  assumes n: "0 < n" and e: "- 1022 \<le> e"
    and y: "y = of_int n * 2 powi (e - 52)"
    and below: "y < 2 powi (e + 1)" and fin: "y < 2 powi 1024"
  shows "round64 y = Some y"
proof -
  have pos: "0 < y" using n by (simp add: y)
  define e' where "e' = max (flog2 y) (- 1022)"
  have "flog2 y < e + 1" using pos below by (rule flog2_less)
  then have le: "e' \<le> e" using e by (simp add: e'_def)
  have "(2::rat) powi (e - 52) = 2 powi (e' - 52) * 2 powi (e - e')"
    using pow2_split [of "e - 52" "e' - 52"] by simp
  also have "(2::rat) powi (e - e') = of_int (2 ^ nat (e - e'))"
    using le by (intro pow2_nat) simp
  finally have q: "(2::rat) powi (e - 52) = 2 powi (e' - 52) * of_int (2 ^ nat (e - e'))" .
  have d: "y / 2 powi (e' - 52) = of_int (n * 2 ^ nat (e - e'))"
    by (simp add: y q)
  have "rne (y / 2 powi (e' - 52)) = n * 2 ^ nat (e - e')"
    unfolding d by (rule rne_of_int)
  then have "of_int (rne (y / 2 powi (e' - 52))) * 2 powi (e' - 52) = y"
    by (simp add: y q)
  then show ?thesis
    using fin pos by (simp add: round64_pos Let_def e'_def [symmetric])
qed

lemma round64_pos_result:
  assumes "0 < r" and "round64 r = Some y"
  obtains "y = 0"
  | n e where "0 < n" "- 1022 \<le> e" "y = of_int n * 2 powi (e - 52)" "y < 2 powi (e + 1)"
      "y < 2 powi 1024"
proof -
  define e where "e = max (flog2 r) (- 1022)"
  define q :: rat where "q = 2 powi (e - 52)"
  define n where "n = rne (r / q)"
  have qpos: "0 < q" by (simp add: q_def)
  have res: "y = of_int n * q" and fin: "y < 2 powi 1024"
    using assms by (simp_all add: round64_pos Let_def e_def [symmetric] q_def [symmetric]
        n_def [symmetric] split: if_splits)
  have e: "- 1022 \<le> e" by (simp add: e_def)
  have "flog2 r \<le> e" by (simp add: e_def)
  then have "(2::rat) powi (flog2 r + 1) \<le> 2 powi (e + 1)" by (simp add: pow2_le_iff)
  with flog2_bounds(2) [OF assms(1)] have r: "r < 2 powi (e + 1)" by simp
  have "(2::rat) powi (e + 1) = q * 2 powi 53"
    using pow2_split [of "e + 1" "e - 52"] by (simp add: q_def)
  with r have "r < q * 2 powi 53" by simp
  then have "r / q < 2 powi 53" using qpos by (simp add: field_simps)
  then have "r / q \<le> of_int (2 ^ 53)" by simp
  then have nle: "n \<le> 2 ^ 53" unfolding n_def by (rule rne_le)
  have "of_int 0 \<le> r / q" using assms(1) qpos by simp
  then have n0: "0 \<le> n" unfolding n_def by (rule rne_ge)
  show thesis
  proof (cases "n = 0")
    case True
    then have "y = 0" by (simp add: res)
    then show thesis by (rule that(1))
  next
    case False
    with n0 have npos: "0 < n" by simp
    show thesis
    proof (cases "n = 2 ^ 53")
      case True
      have top: "y = 2 powi (e + 1)"
        using pow2_split [of "e + 1" "e - 52"] by (simp add: res True q_def)
      have "y = of_int (2 ^ 52) * 2 powi ((e + 1) - 52)"
        using pow2_split [of "e + 1" "e + 1 - 52"] by (simp add: top)
      moreover have "y < 2 powi ((e + 1) + 1)"
        unfolding top by (simp only: pow2_less_iff)
      ultimately show thesis
        using e fin by (intro that(2) [of "2 ^ 52" "e + 1"]) simp_all
    next
      case False
      with nle have "n < 2 ^ 53" by simp
      then have "(of_int n :: rat) < of_int (2 ^ 53)" by (simp only: of_int_less_iff)
      then have "of_int n * q < of_int (2 ^ 53) * q"
        using qpos by (intro mult_strict_right_mono)
      also have "of_int (2 ^ 53) * q = 2 powi (e + 1)"
        using pow2_split [of "e + 1" "e - 52"] by (simp add: q_def)
      finally have "y < 2 powi (e + 1)" by (simp add: res)
      then show thesis
        using npos e fin res by (intro that(2) [of n e]) (simp_all add: q_def)
    qed
  qed
qed

lemma round64_idem_pos:
  assumes "0 < r" and "round64 r = Some y"
  shows "round64 y = Some y"
  using assms
proof (cases rule: round64_pos_result)
  case 1
  then show ?thesis by (simp add: round64_zero)
next
  case (2 n e)
  then show ?thesis by (intro round64_grid [of n e])
qed

lemma round64_idem:
  assumes "round64 r = Some y"
  shows "round64 y = Some y"
proof -
  consider "r = 0" | "0 < r" | "r < 0" by linarith
  then show ?thesis
  proof cases
    case 1
    with assms show ?thesis by (simp add: round64_zero)
  next
    case 2
    from this assms show ?thesis by (rule round64_idem_pos)
  next
    case 3
    then have p: "0 < - r" by simp
    from assms have "round64 (- r) = Some (- y)" by (simp add: round64_minus)
    with p have "round64 (- y) = Some (- y)" by (rule round64_idem_pos)
    then show ?thesis by (simp add: round64_minus)
  qed
qed

lemma is_double_round64: "round64 r = Some y \<Longrightarrow> is_double y"
  unfolding is_double_def by (rule round64_idem)

lemma is_double_zero: "is_double 0"
  by (simp add: is_double_def round64_zero)

lemma is_double_minus: "is_double (- r) \<longleftrightarrow> is_double r"
  by (auto simp: is_double_def round64_minus)

text \<open>Doubles are whole multiples of the least positive one.\<close>

lemma is_double_grid:
  assumes "is_double x"
  shows "\<exists>k::int. x = of_int k * 2 powi (- 1074)"
proof -
  have pos: "\<exists>k::int. x = of_int k * 2 powi (- 1074)" if "0 < x" "is_double x" for x
  proof -
    from that have "round64 x = Some x" by (simp add: is_double_def)
    with that(1) show ?thesis
    proof (cases rule: round64_pos_result)
      case 1
      then show ?thesis by (intro exI [of _ 0]) simp
    next
      case (2 n e)
      have "(2::rat) powi (e - 52) = 2 powi (e + 1022) * 2 powi (- 1074)"
        using pow2_add [of "e + 1022" "- 1074"] by simp
      also have "(2::rat) powi (e + 1022) = of_int (2 ^ nat (e + 1022))"
        using 2(2) by (intro pow2_nat) simp
      finally have "x = of_int (n * 2 ^ nat (e + 1022)) * 2 powi (- 1074)"
        by (simp add: 2(3))
      then show ?thesis by blast
    qed
  qed
  consider "x = 0" | "0 < x" | "x < 0" by linarith
  then show ?thesis
  proof cases
    case 1
    then show ?thesis by (intro exI [of _ 0]) simp
  next
    case 2
    from this assms show ?thesis by (rule pos)
  next
    case 3
    then have "0 < - x" "is_double (- x)" using assms by (simp_all add: is_double_minus)
    then obtain k :: int where "- x = of_int k * 2 powi (- 1074)" using pos by blast
    then have "x = of_int (- k) * 2 powi (- 1074)" by simp
    then show ?thesis by blast
  qed
qed

lemma is_double_gap:
  assumes "is_double x" and "is_double y" and "x < y"
  shows "2 powi (- 1074) \<le> y - x"
proof -
  from is_double_grid [OF assms(1)] is_double_grid [OF assms(2)]
  obtain j k :: int where x: "x = of_int j * 2 powi (- 1074)" and y: "y = of_int k * 2 powi (- 1074)"
    by blast
  have "j < k"
  proof (rule ccontr)
    assume "\<not> j < k"
    then have "(of_int k :: rat) \<le> of_int j" by simp
    then have "y \<le> x" unfolding x y by (intro mult_right_mono) simp_all
    with assms(3) show False by simp
  qed
  then have "(1::rat) \<le> of_int (k - j)" by (simp only: of_int_1_le_iff)
  then have "1 * 2 powi (- 1074) \<le> of_int (k - j) * (2::rat) powi (- 1074)"
    by (intro mult_right_mono) simp_all
  then show ?thesis by (simp add: x y algebra_simps)
qed

text \<open>A number at least as large as the least positive double does not round to zero.\<close>

lemma round64_keeps_positive:
  assumes "2 powi (- 1074) \<le> r" and "round64 r = Some y"
  shows "0 < y"
proof -
  have rpos: "0 < r" using assms(1) pow2_pos [of "- 1074"] by linarith
  define e where "e = max (flog2 r) (- 1022)"
  define q :: rat where "q = 2 powi (e - 52)"
  have qpos: "0 < q" by (simp add: q_def)
  have res: "y = of_int (rne (r / q)) * q"
    using assms(2) rpos by (simp add: round64_pos Let_def e_def [symmetric] q_def [symmetric]
        split: if_splits)
  have "q \<le> r"
  proof (cases "flog2 r \<le> - 1022")
    case True
    then have "e = - 1022" by (simp add: e_def)
    then show ?thesis using assms(1) by (simp add: q_def)
  next
    case False
    then have "e = flog2 r" by (simp add: e_def)
    then have "q \<le> 2 powi flog2 r" by (simp add: q_def pow2_le_iff)
    with flog2_bounds(1) [OF rpos] show ?thesis by simp
  qed
  then have "of_int 1 \<le> r / q" using qpos by (simp add: field_simps)
  then have "1 \<le> rne (r / q)" by (rule rne_ge)
  then have "(0::rat) < of_int (rne (r / q))" by simp
  with qpos show ?thesis unfolding res by (intro mult_pos_pos)
qed

section \<open>Doubles and rounded results\<close>

lemma is_double_val: "is_double (val x)"
  using val [of x] by simp

lemma val_Abs_double: "is_double y \<Longrightarrow> val (Abs_double y) = y"
  by (simp add: Abs_double_inverse)

lemma Abs_double_eq_iff:
  "is_double x \<Longrightarrow> is_double y \<Longrightarrow> Abs_double x = Abs_double y \<longleftrightarrow> x = y"
  by (simp add: Abs_double_inject)

lemma val_dbl: "is_double r \<Longrightarrow> val (dbl r) = r"
  by (simp add: dbl_def is_double_def val_Abs_double)

lemma val_dbl_0: "val (dbl 0) = 0"
  by (simp add: val_dbl is_double_zero)

lemma fl_Some:
  assumes "round64 r = Some y"
  shows "fl r = Fin (Abs_double y)" and "val (Abs_double y) = y"
  using assms is_double_round64 [OF assms] by (simp_all add: fl_def val_Abs_double)

lemma fl_exact:
  assumes "is_double r"
  obtains v where "fl r = Fin v" and "val v = r"
proof -
  from assms have "round64 r = Some r" by (simp add: is_double_def)
  from fl_Some [OF this] show thesis by (rule that)
qed

lemma fl_val: "fl (val x) = Fin x"
proof -
  have "round64 (val x) = Some (val x)" using is_double_val [of x] by (simp add: is_double_def)
  then show ?thesis by (simp add: fl_def val_inverse)
qed

lemma fl_zero: "fl 0 = Fin (dbl 0)"
  by (simp add: fl_def dbl_def round64_zero)

text \<open>The three outcomes of a rounding.\<close>

lemma fl_cases:
  obtains (overflow) "0 < r" and "fl r = PosInf"
  | (underflow) "r < 0" and "fl r = NegInf"
  | (finite) v where "fl r = Fin v" and "round64 r = Some (val v)"
proof (cases "round64 r")
  case None
  then have "r \<noteq> 0" by (auto simp: round64_zero)
  with None show thesis
    by (cases "0 < r") (auto simp: fl_def js_inf_def intro: overflow underflow)
next
  case (Some y)
  from fl_Some [OF this] Some show thesis by (intro finite [of "Abs_double y"]) simp_all
qed

text \<open>The difference of two distinct doubles keeps its sign when it is rounded.\<close>

lemma fl_difference_positive:
  assumes "x < y"
  shows "fl (val y - val x) = PosInf \<or> (\<exists>d. fl (val y - val x) = Fin d \<and> 0 < val d)"
proof -
  have lt: "val x < val y" using assms by (simp add: less_double_def)
  have gap: "2 powi (- 1074) \<le> val y - val x"
    using is_double_val is_double_val lt by (rule is_double_gap)
  show ?thesis
  proof (cases "val y - val x" rule: fl_cases)
    case overflow
    then show ?thesis by simp
  next
    case underflow
    with lt show ?thesis by simp
  next
    case (finite v)
    from round64_keeps_positive [OF gap finite(2)] finite(1) show ?thesis by simp
  qed
qed

lemma fl_difference_negative:
  assumes "x < y"
  shows "fl (val x - val y) = NegInf \<or> (\<exists>d. fl (val x - val y) = Fin d \<and> val d < 0)"
proof -
  have lt: "val x < val y" using assms by (simp add: less_double_def)
  have gap: "2 powi (- 1074) \<le> val y - val x"
    using is_double_val is_double_val lt by (rule is_double_gap)
  show ?thesis
  proof (cases "val x - val y" rule: fl_cases)
    case overflow
    with lt show ?thesis by simp
  next
    case underflow
    then show ?thesis by simp
  next
    case (finite v)
    then have "round64 (- (val y - val x)) = Some (val v)" by simp
    then have "round64 (val y - val x) = Some (- val v)"
      by (simp only: round64_minus) (cases "round64 (val y - val x)"; simp)
    from round64_keeps_positive [OF gap this] finite(1) show ?thesis by simp
  qed
qed

section \<open>Evaluation on concrete numbers\<close>

lemma floor_rat_numeral_divide:
  "\<lfloor>numeral a / numeral b :: rat\<rfloor> = numeral a div numeral b"
  by (metis floor_divide_of_int_eq of_int_numeral)

lemma floor_rat_one_divide:
  "\<lfloor>1 / numeral b :: rat\<rfloor> = 1 div numeral b"
  by (metis floor_divide_of_int_eq of_int_numeral of_int_1)

lemma ceiling_rat_numeral_divide:
  "\<lceil>numeral a / numeral b :: rat\<rceil> = - (- numeral a div numeral b)"
  unfolding ceiling_def
  by (metis floor_divide_of_int_eq of_int_numeral of_int_minus minus_divide_left)

lemma bitlen_numeral: "bitlen (numeral k) = bitlen (numeral k div 2) + 1"
  by (subst compute_bitlen) simp

lemma bitlen_one: "bitlen 1 = 1"
  by (subst compute_bitlen) (simp add: compute_bitlen)

lemmas ev = flog2_def rne_def round64_def is_double_def Let_def
  floor_rat_numeral_divide floor_rat_one_divide ceiling_rat_numeral_divide
  bitlen_numeral bitlen_one
  fl_def dbl_def js_inf_def less_double_def less_eq_double_def val_Abs_double Abs_double_eq_iff
  ascending_def js_index_def

lemma val_dbl_1: "val (dbl 1) = 1"
  by (simp add: ev)

lemma val_dbl_minus_1: "val (dbl (- 1)) = - 1"
  by (simp add: ev)

lemma fl_one: "fl 1 = Fin (dbl 1)"
  by (simp add: ev)

text \<open>
  Rounding at work: a third and a tenth are no doubles, and \<open>1 - 2/3\<close> computed on
  doubles is not the double nearest to a third.
\<close>

lemma round64_third: "round64 (1 / 3) = Some (6004799503160661 / 18014398509481984)"
  by (simp add: ev)

lemma not_is_double_tenth: "\<not> is_double (1 / 10)"
  by (simp add: ev)

lemma one_minus_two_thirds:
  "js_sub (Fin (dbl 1)) (js_div (Fin (dbl 2)) (Fin (dbl 3))) =
     Fin (dbl (3002399751580331 / 9007199254740992))"
  by (simp add: ev)

section \<open>The bisector returns an index that splits the series\<close>

lemma bisect_left_step:
  "lo < hi \<Longrightarrow> js_index a ((lo + hi) div 2) = Some d \<Longrightarrow>
   bisect_left a x lo hi =
     (if js_lt (ascending (fst d) x) (Fin (dbl 0))
      then bisect_left a x ((lo + hi) div 2 + 1) hi
      else bisect_left a x lo ((lo + hi) div 2))"
  by (subst bisect_left.simps) simp

lemma bisect_left_stop: "\<not> lo < hi \<Longrightarrow> bisect_left a x lo hi = Inr lo"
  by (subst bisect_left.simps) simp

lemma compare_below_zero [simp]: "js_lt (ascending u x) (Fin (dbl 0)) \<longleftrightarrow> u < x"
  by (simp add: ascending_def less_double_def val_dbl_0 val_dbl_1 val_dbl_minus_1)

lemma js_index_in_range:
  "0 \<le> i \<Longrightarrow> i < int (length xs) \<Longrightarrow> js_index xs i = Some (xs ! nat i)"
  by (simp add: js_index_def)

lemma bisect_left_bounds:
  "0 \<le> lo \<Longrightarrow> lo \<le> hi \<Longrightarrow> hi \<le> int (length a) \<Longrightarrow>
   \<exists>i. bisect_left a x lo hi = Inr i \<and> lo \<le> i \<and> i \<le> hi"
proof (induction a x lo hi rule: bisect_left.induct)
  case (1 a x lo hi)
  show ?case
  proof (cases "lo < hi")
    case False
    with "1.prems" show ?thesis by (simp add: bisect_left_stop)
  next
    case True
    define mid where "mid = (lo + hi) div 2"
    have mid: "lo \<le> mid" "mid < hi" using True by (simp_all add: mid_def)
    have ix: "js_index a mid = Some (a ! nat mid)"
      using mid "1.prems" by (simp add: js_index_in_range)
    have step: "bisect_left a x lo hi =
        (if fst (a ! nat mid) < x then bisect_left a x (mid + 1) hi else bisect_left a x lo mid)"
      using bisect_left_step [OF True, of a "a ! nat mid" x] ix by (simp add: mid_def)
    show ?thesis
    proof (cases "fst (a ! nat mid) < x")
      case below: True
      have "\<exists>i. bisect_left a x (mid + 1) hi = Inr i \<and> mid + 1 \<le> i \<and> i \<le> hi"
        using "1.IH"(1) [OF True mid_def ix] below mid "1.prems" by simp
      with step below mid show ?thesis by auto
    next
      case notbelow: False
      have "\<exists>i. bisect_left a x lo mid = Inr i \<and> lo \<le> i \<and> i \<le> mid"
        using "1.IH"(2) [OF True mid_def ix] notbelow mid "1.prems" by simp
      with step notbelow mid show ?thesis by auto
    qed
  qed
qed

lemma bisect_left_partition:
  "years_sorted a \<Longrightarrow> 0 \<le> lo \<Longrightarrow> lo \<le> hi \<Longrightarrow> hi \<le> int (length a) \<Longrightarrow>
   bisect_left a x lo hi = Inr i \<Longrightarrow>
   (\<forall>j. lo \<le> j \<and> j < i \<longrightarrow> fst (a ! nat j) < x) \<and>
   (\<forall>j. i \<le> j \<and> j < hi \<longrightarrow> x \<le> fst (a ! nat j))"
proof (induction a x lo hi rule: bisect_left.induct)
  case (1 a x lo hi)
  have mono: "fst (a ! nat j) \<le> fst (a ! nat k)" if "0 \<le> j" "j \<le> k" "k < int (length a)" for j k
  proof (cases "j = k")
    case True then show ?thesis by simp
  next
    case False
    with that have "nat j < nat k" "nat k < length a" by auto
    with "1.prems"(1) show ?thesis
      by (simp add: years_sorted_def sorted_wrt_iff_nth_less)
  qed
  show ?case
  proof (cases "lo < hi")
    case False
    with "1.prems" show ?thesis by (auto simp: bisect_left_stop)
  next
    case True
    define mid where "mid = (lo + hi) div 2"
    have mid: "lo \<le> mid" "mid < hi" using True by (simp_all add: mid_def)
    have ix: "js_index a mid = Some (a ! nat mid)"
      using mid "1.prems" by (simp add: js_index_in_range)
    have step: "bisect_left a x lo hi =
        (if fst (a ! nat mid) < x then bisect_left a x (mid + 1) hi else bisect_left a x lo mid)"
      using bisect_left_step [OF True, of a "a ! nat mid" x] ix by (simp add: mid_def)
    show ?thesis
    proof (cases "fst (a ! nat mid) < x")
      case below: True
      then have r: "bisect_left a x (mid + 1) hi = Inr i" using step "1.prems"(5) by simp
      have ih: "(\<forall>j. mid + 1 \<le> j \<and> j < i \<longrightarrow> fst (a ! nat j) < x) \<and>
                (\<forall>j. i \<le> j \<and> j < hi \<longrightarrow> x \<le> fst (a ! nat j))"
        using "1.IH"(1) [OF True mid_def ix _ "1.prems"(1)] below mid "1.prems" r by simp
      have "fst (a ! nat j) < x" if "lo \<le> j" "j < i" for j
      proof (cases "j \<le> mid")
        case True
        have "fst (a ! nat j) \<le> fst (a ! nat mid)"
          using mono [of j mid] that True mid "1.prems" by simp
        with below show ?thesis by simp
      next
        case False
        with ih that show ?thesis by simp
      qed
      with ih show ?thesis by blast
    next
      case notbelow: False
      then have r: "bisect_left a x lo mid = Inr i" using step "1.prems"(5) by simp
      have ih: "(\<forall>j. lo \<le> j \<and> j < i \<longrightarrow> fst (a ! nat j) < x) \<and>
                (\<forall>j. i \<le> j \<and> j < mid \<longrightarrow> x \<le> fst (a ! nat j))"
        using "1.IH"(2) [OF True mid_def ix _ "1.prems"(1)] notbelow mid "1.prems" r by simp
      have "x \<le> fst (a ! nat j)" if "i \<le> j" "j < hi" for j
      proof (cases "mid \<le> j")
        case True
        have "fst (a ! nat mid) \<le> fst (a ! nat j)"
          using mono [of mid j] that True mid "1.prems" by simp
        with notbelow show ?thesis by simp
      next
        case False
        with ih that show ?thesis by simp
      qed
      with ih show ?thesis by blast
    qed
  qed
qed

lemma years_ascending_sorted: "years_ascending s \<Longrightarrow> years_sorted s"
  unfolding years_ascending_def years_sorted_def
  by (erule sorted_wrt_mono_rel [rotated]) simp

lemma years_ascending_nth:
  "years_ascending s \<Longrightarrow> j < k \<Longrightarrow> k < length s \<Longrightarrow> fst (s ! j) < fst (s ! k)"
  by (simp add: years_ascending_def sorted_wrt_iff_nth_less)

text \<open>What the call in the interpolator learns from the bisector.\<close>

lemma bisect_call:
  assumes "values \<noteq> []"
  obtains i where "bisect_left values year 0 (int (length values) - 1) = Inr (int i)"
    and "i < length values"
proof -
  have "0 \<le> int (length values) - 1" using assms by (cases "values") simp_all
  from bisect_left_bounds [OF _ this, of "values" year]
  obtain j where j: "bisect_left values year 0 (int (length values) - 1) = Inr j"
    "0 \<le> j" "j \<le> int (length values) - 1" by auto
  then have "bisect_left values year 0 (int (length values) - 1) = Inr (int (nat j))"
    "nat j < length values" by auto
  then show thesis by (rule that)
qed

lemma bisect_call_partition:
  assumes "years_sorted values" and "values \<noteq> []"
    and "bisect_left values year 0 (int (length values) - 1) = Inr (int i)"
  shows "\<And>j. j < i \<Longrightarrow> fst (values ! j) < year"
    and "\<And>j. i \<le> j \<Longrightarrow> Suc j < length values \<Longrightarrow> year \<le> fst (values ! j)"
proof -
  have hi: "0 \<le> int (length values) - 1" using assms(2) by (cases "values") simp_all
  note p = bisect_left_partition [OF assms(1) _ hi _ assms(3)]
  show "fst (values ! j) < year" if "j < i" for j
    using p that by (auto dest: spec [of _ "int j"])
  show "year \<le> fst (values ! j)" if "i \<le> j" "Suc j < length values" for j
    using p that by (auto dest: spec [of _ "int j"])
qed

lemma bisect_index_first:
  assumes "years_sorted values" and "values \<noteq> []" and "year \<le> fst (values ! 0)"
  shows "bisect_left values year 0 (int (length values) - 1) = Inr 0"
proof -
  obtain i where i: "bisect_left values year 0 (int (length values) - 1) = Inr (int i)"
    using bisect_call [OF assms(2)] by blast
  have "i = 0"
  proof (rule ccontr)
    assume "i \<noteq> 0"
    then have "fst (values ! 0) < year"
      using bisect_call_partition(1) [OF assms(1,2) i, of 0] by simp
    with assms(3) show False by simp
  qed
  with i show ?thesis by simp
qed

lemma bisect_index_exact:
  assumes "years_ascending values" and "k < length values"
  shows "bisect_left values (fst (values ! k)) 0 (int (length values) - 1) = Inr (int k)"
proof -
  have ne: "values \<noteq> []" using assms(2) by auto
  have srt: "years_sorted values" using assms(1) by (rule years_ascending_sorted)
  obtain i where i: "bisect_left values (fst (values ! k)) 0 (int (length values) - 1) = Inr (int i)"
    and il: "i < length values"
    using bisect_call [OF ne] by blast
  have "\<not> k < i"
    using bisect_call_partition(1) [OF srt ne i, of k] by auto
  moreover have "\<not> i < k"
  proof
    assume "i < k"
    then have "fst (values ! k) \<le> fst (values ! i)"
      using bisect_call_partition(2) [OF srt ne i, of i] assms(2) by simp
    moreover have "fst (values ! i) < fst (values ! k)"
      using years_ascending_nth [OF assms(1) \<open>i < k\<close> assms(2)] .
    ultimately show False by simp
  qed
  ultimately have "i = k" by simp
  with i show ?thesis by simp
qed

lemma bisect_index_between:
  assumes "years_ascending values" and "Suc k < length values"
    and "fst (values ! k) < year" and "year \<le> fst (values ! Suc k)"
  shows "bisect_left values year 0 (int (length values) - 1) = Inr (int (Suc k))"
proof -
  have ne: "values \<noteq> []" using assms(2) by auto
  have srt: "years_sorted values" using assms(1) by (rule years_ascending_sorted)
  obtain i where i: "bisect_left values year 0 (int (length values) - 1) = Inr (int i)"
    and il: "i < length values"
    using bisect_call [OF ne] by blast
  have "\<not> Suc k < i"
    using bisect_call_partition(1) [OF srt ne i, of "Suc k"] assms(4) by auto
  moreover have "\<not> i \<le> k"
  proof
    assume ik: "i \<le> k"
    then have "year \<le> fst (values ! i)"
      using bisect_call_partition(2) [OF srt ne i, of i] assms(2) by simp
    moreover have "fst (values ! i) \<le> fst (values ! k)"
    proof (cases "i = k")
      case True then show ?thesis by simp
    next
      case False
      with ik have "i < k" by simp
      from years_ascending_nth [OF assms(1) this] assms(2) show ?thesis by simp
    qed
    ultimately show False using assms(3) by simp
  qed
  ultimately have "i = Suc k" by simp
  with i show ?thesis by simp
qed

lemma bisect_index_past:
  assumes "years_ascending values" and "values \<noteq> []"
    and "fst (values ! (length values - 1)) < year"
  shows "bisect_left values year 0 (int (length values) - 1) = Inr (int (length values - 1))"
proof -
  have srt: "years_sorted values" using assms(1) by (rule years_ascending_sorted)
  obtain i where i: "bisect_left values year 0 (int (length values) - 1) = Inr (int i)"
    and il: "i < length values"
    using bisect_call [OF assms(2)] by blast
  have "\<not> Suc i < length values"
  proof
    assume s: "Suc i < length values"
    then have "year \<le> fst (values ! i)"
      using bisect_call_partition(2) [OF srt assms(2) i, of i] by simp
    moreover have "fst (values ! i) < fst (values ! (length values - 1))"
      using years_ascending_nth [OF assms(1), of i "length values - 1"] s by simp
    ultimately show False using assms(3) by simp
  qed
  with il have "i = length values - 1" by simp
  with i show ?thesis by simp
qed

section \<open>The arithmetic of the interpolation\<close>

subsection \<open>In exact arithmetic\<close>

lemma exact_interpolate_slope:
  "exact_interpolate a b year =
     val (snd b) + (val (snd a) - val (snd b)) *
       ((val year - val (fst b)) / (val (fst a) - val (fst b)))"
proof -
  define t where "t = (val year - val (fst b)) / (val (fst a) - val (fst b))"
  have "val (snd b) * (1 - t) + val (snd a) * t = val (snd b) + (val (snd a) - val (snd b)) * t"
    by (simp add: algebra_simps)
  then show ?thesis
    unfolding exact_interpolate_def Let_def t_def .
qed

lemma exact_interpolate_at_earlier: "exact_interpolate a b (fst b) = val (snd b)"
  by (simp add: exact_interpolate_def)

lemma exact_interpolate_mono:
  assumes "fst b < fst a" and "snd b \<le> snd a" and "y1 \<le> y2"
  shows "exact_interpolate a b y1 \<le> exact_interpolate a b y2"
proof -
  have "(val y1 - val (fst b)) / (val (fst a) - val (fst b))
      \<le> (val y2 - val (fst b)) / (val (fst a) - val (fst b))"
    using assms(1,3) by (intro divide_right_mono) (simp_all add: less_double_def less_eq_double_def)
  then have "(val (snd a) - val (snd b)) * ((val y1 - val (fst b)) / (val (fst a) - val (fst b)))
           \<le> (val (snd a) - val (snd b)) * ((val y2 - val (fst b)) / (val (fst a) - val (fst b)))"
    using assms(2) by (intro mult_left_mono) (simp_all add: less_eq_double_def)
  then show ?thesis
    by (simp add: exact_interpolate_slope)
qed

lemma exact_interpolate_past:
  assumes "fst b < fst a" and "fst a < year"
  shows "exact_interpolate a b year - val (snd a) =
           (val (snd a) - val (snd b)) * ((val year - val (fst a)) / (val (fst a) - val (fst b)))"
    and "0 < (val year - val (fst a)) / (val (fst a) - val (fst b))"
proof -
  define w where "w = val (fst a) - val (fst b)"
  have w: "0 < w" using assms(1) by (simp add: w_def less_double_def)
  have "(val year - val (fst b)) / w = (val year - val (fst a)) / w + 1"
    using w by (simp add: w_def field_simps)
  then show "exact_interpolate a b year - val (snd a) =
           (val (snd a) - val (snd b)) * ((val year - val (fst a)) / (val (fst a) - val (fst b)))"
    by (simp add: exact_interpolate_slope w_def [symmetric] algebra_simps)
  show "0 < (val year - val (fst a)) / (val (fst a) - val (fst b))"
    using assms by (simp add: less_double_def)
qed

text \<open>
  The expression of the source measures its fraction from the later sample; in exact
  arithmetic it has the value of the formula of the specification.
\<close>

lemma source_expression_exact:
  assumes "fst a \<noteq> fst b"
  shows "(let t = (val year - val (fst a)) / (val (fst b) - val (fst a))
          in val (snd a) * (1 - t) + val (snd b) * t) = exact_interpolate a b year"
proof -
  from assms have ne: "val (fst a) \<noteq> val (fst b)" by (simp add: val_inject)
  then have d1: "val (fst a) - val (fst b) \<noteq> 0" and d2: "val (fst b) - val (fst a) \<noteq> 0"
    by simp_all
  have "(val year - val (fst a)) / (val (fst b) - val (fst a))
      = 1 - (val year - val (fst b)) / (val (fst a) - val (fst b))"
    using d1 d2 by (simp add: field_simps)
  then show ?thesis
    by (simp add: exact_interpolate_def Let_def)
qed

subsection \<open>On doubles\<close>

text \<open>When no operation rounds, the source computes the exact value.\<close>

lemma interpolation_exact:
  assumes ne: "fst a \<noteq> fst b" and ex: "exact_interpolation a b year"
  obtains v where "interpolation a b year = Fin v" and "val v = exact_interpolate a b year"
proof -
  define n where "n = val year - val (fst a)"
  define d where "d = val (fst b) - val (fst a)"
  define t where "t = n / d"
  define u where "u = 1 - t"
  define p where "p = val (snd a) * u"
  define q where "q = val (snd b) * t"
  from ex have dbl: "is_double n" "is_double d" "is_double t" "is_double u"
    "is_double p" "is_double q" "is_double (p + q)"
    by (simp_all add: exact_interpolation_def Let_def n_def d_def t_def u_def p_def q_def)
  from ne have d0: "d \<noteq> 0" by (simp add: d_def val_inject)
  from dbl(1) obtain N where N: "fl n = Fin N" "val N = n" by (rule fl_exact)
  from dbl(2) obtain D where D: "fl d = Fin D" "val D = d" by (rule fl_exact)
  from dbl(3) obtain T where T: "fl t = Fin T" "val T = t" by (rule fl_exact)
  from dbl(4) obtain U where U: "fl u = Fin U" "val U = u" by (rule fl_exact)
  from dbl(5) obtain P where P: "fl p = Fin P" "val P = p" by (rule fl_exact)
  from dbl(6) obtain Q where Q: "fl q = Fin Q" "val Q = q" by (rule fl_exact)
  from dbl(7) obtain S where S: "fl (p + q) = Fin S" "val S = p + q" by (rule fl_exact)
  have 1: "js_sub (Fin year) (Fin (fst a)) = Fin N" by (simp add: N n_def [symmetric])
  have 2: "js_sub (Fin (fst b)) (Fin (fst a)) = Fin D" by (simp add: D d_def [symmetric])
  have 3: "js_div (Fin N) (Fin D) = Fin T" using d0 by (simp add: N D T t_def [symmetric])
  have 4: "js_sub (Fin (dbl 1)) (Fin T) = Fin U" by (simp add: val_dbl_1 T U u_def [symmetric])
  have 5: "js_mul (Fin (snd a)) (Fin U) = Fin P" by (simp add: U P p_def [symmetric])
  have 6: "js_mul (Fin (snd b)) (Fin T) = Fin Q" by (simp add: T Q q_def [symmetric])
  have 7: "js_add (Fin P) (Fin Q) = Fin S" by (simp add: P Q S)
  have r: "interpolation a b year = Fin S"
    by (simp only: interpolation_def Let_def 1 2 3 4 5 6 7)
  have "p + q = exact_interpolate a b year"
    using source_expression_exact [OF ne, of year]
    by (simp add: Let_def p_def q_def u_def t_def n_def d_def)
  with S(2) have "val S = exact_interpolate a b year" by simp
  with r show thesis by (rule that)
qed

text \<open>At the year of the later sample the fraction is zero and nothing rounds.\<close>

lemma interpolation_at_sample:
  assumes "fst b < fst a"
  shows "interpolation a b (fst a) = Fin (snd a)"
proof -
  have 1: "js_sub (Fin (fst a)) (Fin (fst a)) = Fin (dbl 0)" by (simp add: fl_zero)
  have 3: "js_div (Fin (dbl 0)) (js_sub (Fin (fst b)) (Fin (fst a))) = Fin (dbl 0)"
    using fl_difference_negative [OF assms]
    by (auto simp: val_dbl_0 fl_zero)
  have 4: "js_sub (Fin (dbl 1)) (Fin (dbl 0)) = Fin (dbl 1)"
    by (simp add: val_dbl_0 val_dbl_1 fl_one)
  have 5: "js_mul (Fin (snd a)) (Fin (dbl 1)) = Fin (snd a)"
    by (simp add: val_dbl_1 fl_val)
  have 6: "js_mul (Fin (snd b)) (Fin (dbl 0)) = Fin (dbl 0)"
    by (simp add: val_dbl_0 fl_zero)
  have 7: "js_add (Fin (snd a)) (Fin (dbl 0)) = Fin (snd a)"
    by (simp add: val_dbl_0 fl_val)
  show ?thesis
    by (simp only: interpolation_def Let_def 1 3 4 5 6 7)
qed

text \<open>With equal years the divisor is zero, and nothing finite comes out.\<close>

lemma js_arith_infinite_fraction:
  assumes "t = NaN \<or> t = PosInf \<or> t = NegInf"
  shows "\<not> js_finite (js_add (js_mul (Fin a1) (js_sub (Fin one) t)) (js_mul (Fin b1) t))"
  using assms by (auto simp: js_finite_def js_inf_def split: if_splits)

lemma js_div_zero_divisor:
  "js_div x (Fin (dbl 0)) = NaN \<or> js_div x (Fin (dbl 0)) = PosInf \<or>
   js_div x (Fin (dbl 0)) = NegInf"
  by (cases x) (simp_all add: val_dbl_0 js_inf_def)

lemma interpolation_zero_divisor:
  assumes "fst a = fst b"
  shows "interpolation a b year =
     (let t = js_div (js_sub (Fin year) (Fin (fst a))) (Fin (dbl 0))
      in js_add (js_mul (Fin (snd a)) (js_sub (Fin (dbl 1)) t)) (js_mul (Fin (snd b)) t))"
    and "\<not> js_finite (interpolation a b year)"
proof -
  show eq: "interpolation a b year =
     (let t = js_div (js_sub (Fin year) (Fin (fst a))) (Fin (dbl 0))
      in js_add (js_mul (Fin (snd a)) (js_sub (Fin (dbl 1)) t)) (js_mul (Fin (snd b)) t))"
    by (simp add: interpolation_def assms [symmetric] fl_zero)
  show "\<not> js_finite (interpolation a b year)"
    unfolding eq Let_def
    using js_div_zero_divisor [of "js_sub (Fin year) (Fin (fst a))"]
    by (rule js_arith_infinite_fraction)
qed

section \<open>The interpolator at a known index\<close>

lemma interpolateValues_at:
  assumes "bisect_left values year 0 (int (length values) - 1) = Inr i"
    and "0 \<le> i" and "i < int (length values)"
  shows "interpolateValues values year =
     (if 0 < i then Inr (interpolation (values ! nat i) (values ! nat (i - 1)) year)
      else Inr (Fin (snd (values ! nat i))))"
  using assms by (simp add: interpolateValues_def interpolation_def js_index_def Let_def)

lemma interpolateValues_first:
  assumes "bisect_left values year 0 (int (length values) - 1) = Inr 0" and "values \<noteq> []"
  shows "interpolateValues values year = Inr (Fin (snd (values ! 0)))"
  using interpolateValues_at [OF assms(1)] assms(2) by simp

lemma interpolateValues_later:
  assumes "bisect_left values year 0 (int (length values) - 1) = Inr (int (Suc k))"
    and "Suc k < length values"
  shows "interpolateValues values year = Inr (interpolation (values ! Suc k) (values ! k) year)"
proof -
  have k: "nat (int (Suc k) - 1) = k" "nat (int (Suc k)) = Suc k" by simp_all
  show ?thesis
    using interpolateValues_at [OF assms(1)] assms(2) unfolding k by simp
qed

lemma interpolateValues_sample:
  assumes "years_ascending series" and "k < length series"
  shows "interpolateValues series (fst (series ! k)) = Inr (Fin (snd (series ! k)))"
proof (cases k)
  case 0
  have "series \<noteq> []" using assms(2) by auto
  with bisect_index_exact [OF assms] 0 show ?thesis
    by (simp add: interpolateValues_first)
next
  case (Suc j)
  have lt: "fst (series ! j) < fst (series ! Suc j)"
    using years_ascending_nth [OF assms(1), of j "Suc j"] assms(2) Suc by simp
  have "interpolateValues series (fst (series ! Suc j)) =
          Inr (interpolation (series ! Suc j) (series ! j) (fst (series ! Suc j)))"
    using bisect_index_exact [OF assms] assms(2) unfolding Suc
    by (rule interpolateValues_later)
  then show ?thesis by (simp add: Suc interpolation_at_sample [OF lt])
qed

lemma interpolateValues_segment_exact:
  assumes "years_ascending series" and "Suc k < length series"
    and "fst (series ! k) \<le> year" and "year \<le> fst (series ! Suc k)"
    and "exact_interpolation (series ! Suc k) (series ! k) year"
  obtains v where "interpolateValues series year = Inr (Fin v)"
    and "val v = exact_interpolate (series ! Suc k) (series ! k) year"
proof -
  have lt: "fst (series ! k) < fst (series ! Suc k)"
    using years_ascending_nth [OF assms(1), of k "Suc k"] assms(2) by simp
  then have ne: "fst (series ! Suc k) \<noteq> fst (series ! k)" by simp
  show thesis
  proof (cases "year = fst (series ! k)")
    case True
    have "interpolateValues series (fst (series ! k)) = Inr (Fin (snd (series ! k)))"
      using assms(1,2) by (intro interpolateValues_sample) simp_all
    with True show thesis
      by (intro that [of "snd (series ! k)"]) (simp_all add: exact_interpolate_at_earlier)
  next
    case False
    with assms(3) have "fst (series ! k) < year" by simp
    from bisect_index_between [OF assms(1,2) this assms(4)] assms(2)
    have r: "interpolateValues series year =
        Inr (interpolation (series ! Suc k) (series ! k) year)"
      by (rule interpolateValues_later)
    from ne assms(5) obtain v where "interpolation (series ! Suc k) (series ! k) year = Fin v"
      and "val v = exact_interpolate (series ! Suc k) (series ! k) year"
      by (rule interpolation_exact)
    with r show thesis by (intro that [of v]) simp_all
  qed
qed

lemma interpolateValues_returns:
  assumes "series \<noteq> []"
  shows "\<exists>v. interpolateValues series year = Inr v"
proof -
  have "0 \<le> int (length series) - 1" using assms by (cases series) simp_all
  from bisect_left_bounds [OF _ this, of series year]
  obtain i where i: "bisect_left series year 0 (int (length series) - 1) = Inr i"
    "0 \<le> i" "i \<le> int (length series) - 1" by auto
  show ?thesis
    using interpolateValues_at [OF i(1,2)] i(3) by simp
qed

lemma interpolateValues_empty: "interpolateValues [] year = Inl TypeError"
  by (simp add: interpolateValues_def bisect_left_stop js_index_def)

section \<open>The sort by the draw order\<close>

text \<open>The comparator is above zero exactly when its first argument is the smaller.\<close>

lemma order_sign_finite:
  assumes "radius x = Fin p" and "radius y = Fin q"
  shows "js_gt (sort_compare order x y) (Fin (dbl 0)) \<longleftrightarrow> p < q"
proof -
  have o: "order x y = fl (val q - val p)" by (simp add: order_def assms)
  consider "p < q" | "p = q" | "q < p" by (rule less_linear [THEN disjE]) blast+
  then show ?thesis
  proof cases
    case 1
    from fl_difference_positive [OF this] show ?thesis
      using 1 by (auto simp: o sort_compare_def js_gt_def less_double_def val_dbl_0)
  next
    case 2
    then show ?thesis
      by (simp add: o sort_compare_def js_gt_def fl_zero)
  next
    case 3
    from fl_difference_negative [OF this] show ?thesis
      using 3 by (auto simp: o sort_compare_def js_gt_def less_double_def val_dbl_0)
  qed
qed

lemma order_keeps:
  assumes "radius x \<noteq> NaN" and "radius y \<noteq> NaN"
    and "\<not> js_gt (sort_compare order x y) (Fin (dbl 0))"
  shows "js_ge (radius x) (radius y)"
proof (cases "radius x")
  case (Fin p)
  show ?thesis
  proof (cases "radius y")
    case (Fin q)
    with order_sign_finite [OF \<open>radius x = Fin p\<close> this] assms(3) \<open>radius x = Fin p\<close>
    show ?thesis by simp
  qed (use assms Fin in \<open>simp_all add: order_def sort_compare_def js_gt_def\<close>)
qed (use assms in \<open>cases "radius y"; simp add: order_def sort_compare_def js_gt_def\<close>)+

lemma order_swaps:
  assumes "radius x \<noteq> NaN" and "radius y \<noteq> NaN"
    and "js_gt (sort_compare order x y) (Fin (dbl 0))"
  shows "js_ge (radius y) (radius x)"
proof (cases "radius x")
  case (Fin p)
  show ?thesis
  proof (cases "radius y")
    case (Fin q)
    with order_sign_finite [OF \<open>radius x = Fin p\<close> this] assms(3) \<open>radius x = Fin p\<close>
    show ?thesis by (simp add: not_less less_imp_le)
  qed (use assms Fin in \<open>simp_all add: order_def sort_compare_def js_gt_def\<close>)
qed (use assms in \<open>cases "radius y"; simp add: order_def sort_compare_def js_gt_def\<close>)+

lemma hd_insert_sorted:
  "hd (insert_sorted c x ys) = x \<or> (ys \<noteq> [] \<and> hd (insert_sorted c x ys) = hd ys)"
  by (cases ys) simp_all

lemma insert_sorted_not_Nil: "insert_sorted c x ys \<noteq> []"
  by (cases ys) simp_all

lemma set_insert_sorted: "set (insert_sorted c x ys) = insert x (set ys)"
  by (induction ys) auto

lemma set_array_sort: "set (array_sort c xs) = set xs"
  by (induction xs) (simp_all add: set_insert_sorted)

lemma mset_insert_sorted: "mset (insert_sorted c x ys) = add_mset x (mset ys)"
  by (induction ys) simp_all

lemma mset_array_sort: "mset (array_sort c xs) = mset xs"
  by (induction xs) (simp_all add: mset_insert_sorted)

lemma successively_insert_sorted:
  assumes "radius x \<noteq> NaN" and "\<forall>y \<in> set ys. radius y \<noteq> NaN"
    and "successively (\<lambda>a b. js_ge (radius a) (radius b)) ys"
  shows "successively (\<lambda>a b. js_ge (radius a) (radius b)) (insert_sorted order x ys)"
  using assms
proof (induction ys)
  case Nil
  show ?case by simp
next
  case (Cons y ys)
  show ?case
  proof (cases "js_gt (sort_compare order x y) (Fin (dbl 0))")
    case False
    then have "js_ge (radius x) (radius y)"
      using Cons.prems by (intro order_keeps) simp_all
    with False Cons.prems(3) show ?thesis by simp
  next
    case True
    then have yx: "js_ge (radius y) (radius x)"
      using Cons.prems by (intro order_swaps) simp_all
    have "successively (\<lambda>a b. js_ge (radius a) (radius b)) ys"
      using Cons.prems(3) by (cases ys) simp_all
    then have tl: "successively (\<lambda>a b. js_ge (radius a) (radius b)) (insert_sorted order x ys)"
      using Cons.prems(1,2) by (intro Cons.IH) simp_all
    have "js_ge (radius y) (radius (hd (insert_sorted order x ys)))"
      using hd_insert_sorted [of order x ys] yx Cons.prems(3)
      by (auto simp: successively_Cons)
    with tl True show ?thesis
      by (simp add: successively_Cons insert_sorted_not_Nil)
  qed
qed

lemma successively_array_sort:
  assumes "\<forall>s \<in> set xs. radius s \<noteq> NaN"
  shows "successively (\<lambda>a b. js_ge (radius a) (radius b)) (array_sort order xs)"
  using assms
proof (induction xs)
  case Nil
  show ?case by simp
next
  case (Cons x xs)
  then show ?case
    by (simp add: successively_insert_sorted set_array_sort)
qed

section \<open>The claims of the specification\<close>

subsection \<open>The interpolator\<close>

text \<open>
  C1. Interior interpolation formula, as stated: the interpolator returns
  \<open>b.value * (1 - t) + a.value * t\<close> with \<open>t = (year - b.year) / (a.year - b.year)\<close>,
  and this equals the expression of the source. On doubles the two expressions round
  differently. For the samples \<open>[0, 0]\<close> and \<open>[3, 1]\<close> and the year 1 the source
  computes \<open>1 - 2/3\<close> and returns 0.33333333333333337, the formula of the
  specification gives 0.3333333333333333, and neither is the exact value 1/3.
\<close>

theorem interpolateValues_rounding_counterexample:
  "(let b = (dbl 0, dbl 0); a = (dbl 3, dbl 1); year = dbl 1
    in years_ascending [b, a] \<and>
       bisect_left [b, a] year 0 1 = Inr 1 \<and>
       interpolateValues [b, a] year = Inr (Fin (dbl (3002399751580331 / 9007199254740992))) \<and>
       spec_interpolate a b year = Fin (dbl (6004799503160661 / 18014398509481984)) \<and>
       exact_interpolate a b year = 1 / 3 \<and>
       dbl (3002399751580331 / 9007199254740992) \<noteq> dbl (6004799503160661 / 18014398509481984) \<and>
       val (dbl (3002399751580331 / 9007199254740992)) \<noteq> 1 / 3)"
  by (simp add: years_ascending_def interpolateValues_def bisect_left.simps spec_interpolate_def
      exact_interpolate_def ev)

text \<open>
  C1 as amended: on a series of at least two samples with strictly ascending years,
  when the bisector returns an index \<open>i > 0\<close>, the interpolator returns the expression
  of the source, \<open>a[1] * (1 - t) + b[1] * t\<close> with \<open>t = (year - a[0]) / (b[0] - a[0])\<close>,
  \<open>a = series[i]\<close> and \<open>b = series[i - 1]\<close>, each operation rounded to a double; when
  none of the operations rounds, that number is the exact value of
  \<open>b.value * (1 - t) + a.value * t\<close> with \<open>t = (year - b.year) / (a.year - b.year)\<close>.
\<close>

theorem interpolateValues_interior:
  assumes "2 \<le> length series" and "years_ascending series"
    and "bisect_left series year 0 (int (length series) - 1) = Inr i" and "0 < i"
  shows "interpolateValues series year =
           Inr (interpolation (series ! nat i) (series ! nat (i - 1)) year) \<and>
         (exact_interpolation (series ! nat i) (series ! nat (i - 1)) year \<longrightarrow>
            (\<exists>v. interpolateValues series year = Inr (Fin v) \<and>
                 val v = exact_interpolate (series ! nat i) (series ! nat (i - 1)) year))"
proof -
  have "0 \<le> int (length series) - 1" using assms(1) by linarith
  from bisect_left_bounds [OF _ this, of series year] assms(3)
  have il: "i \<le> int (length series) - 1" by auto
  define k where "k = nat (i - 1)"
  have k: "i = int (Suc k)" "nat i = Suc k" "nat (i - 1) = k" "Suc k < length series"
    using assms(4) il by (simp_all add: k_def)
  have ne: "fst (series ! Suc k) \<noteq> fst (series ! k)"
    using years_ascending_nth [OF assms(2), of k "Suc k"] k(4) by simp
  have r: "interpolateValues series year = Inr (interpolation (series ! Suc k) (series ! k) year)"
    using assms(3) k(4) unfolding k(1) by (rule interpolateValues_later)
  have "\<exists>v. interpolateValues series year = Inr (Fin v) \<and>
           val v = exact_interpolate (series ! Suc k) (series ! k) year"
    if "exact_interpolation (series ! Suc k) (series ! k) year"
    using interpolation_exact [OF ne that] r by metis
  with r show ?thesis unfolding k(2,3) by blast
qed

theorem interpolateValues_interior_witness:
  "years_ascending [(dbl 1800, dbl 10), (dbl 1900, dbl 20), (dbl 2000, dbl 40)] \<and>
   bisect_left [(dbl 1800, dbl 10), (dbl 1900, dbl 20), (dbl 2000, dbl 40)] (dbl 1950) 0 2 = Inr 2 \<and>
   exact_interpolation (dbl 2000, dbl 40) (dbl 1900, dbl 20) (dbl 1950) \<and>
   exact_interpolate (dbl 2000, dbl 40) (dbl 1900, dbl 20) (dbl 1950) = 30 \<and>
   interpolateValues [(dbl 1800, dbl 10), (dbl 1900, dbl 20), (dbl 2000, dbl 40)] (dbl 1950) =
     Inr (interpolation (dbl 2000, dbl 40) (dbl 1900, dbl 20) (dbl 1950)) \<and>
   (\<exists>v. interpolateValues [(dbl 1800, dbl 10), (dbl 1900, dbl 20), (dbl 2000, dbl 40)] (dbl 1950) =
          Inr (Fin v) \<and> val v = 30)"
proof -
  let ?s = "[(dbl 1800, dbl 10), (dbl 1900, dbl 20), (dbl 2000, dbl 40)]"
  have l: "2 \<le> length ?s" by simp
  have a: "years_ascending ?s" by (simp add: years_ascending_def ev)
  have b: "bisect_left ?s (dbl 1950) 0 (int (length ?s) - 1) = Inr 2"
    by (simp add: bisect_left.simps ev)
  then have b': "bisect_left ?s (dbl 1950) 0 2 = Inr 2" by simp
  have p: "(0::int) < 2" by simp
  have x: "exact_interpolation (dbl 2000, dbl 40) (dbl 1900, dbl 20) (dbl 1950)"
    by (simp add: exact_interpolation_def ev)
  have v: "exact_interpolate (dbl 2000, dbl 40) (dbl 1900, dbl 20) (dbl 1950) = 30"
    by (simp add: exact_interpolate_def ev)
  have i1: "?s ! nat 2 = (dbl 2000, dbl 40)" and i2: "?s ! nat (2 - 1) = (dbl 1900, dbl 20)"
    by simp_all
  from interpolateValues_interior [OF l a b p]
  have c1: "interpolateValues ?s (dbl 1950) =
      Inr (interpolation (dbl 2000, dbl 40) (dbl 1900, dbl 20) (dbl 1950))"
    and c2: "exact_interpolation (dbl 2000, dbl 40) (dbl 1900, dbl 20) (dbl 1950) \<longrightarrow>
      (\<exists>v. interpolateValues ?s (dbl 1950) = Inr (Fin v) \<and>
           val v = exact_interpolate (dbl 2000, dbl 40) (dbl 1900, dbl 20) (dbl 1950))"
    unfolding i1 i2 by blast+
  from c2 x have c3: "\<exists>v. interpolateValues ?s (dbl 1950) = Inr (Fin v) \<and> val v = 30"
    unfolding v by blast
  from a b' x v c1 c3 show ?thesis by blast
qed

text \<open>
  C2. Clamping before the first sample: on a non-empty series sorted ascending by
  year, a query year at or before the first sample's year gives the first sample's
  value, unchanged.
\<close>

theorem interpolateValues_clamps_before_first:
  assumes "series \<noteq> []" and "years_sorted series" and "y \<le> fst (series ! 0)"
  shows "interpolateValues series y = Inr (Fin (snd (series ! 0)))"
  using bisect_index_first [OF assms(2,1,3)] assms(1) by (rule interpolateValues_first)

theorem interpolateValues_clamps_before_first_witness:
  "years_sorted [(dbl 1800, dbl 10), (dbl 1900, dbl 20), (dbl 2000, dbl 40)] \<and>
   dbl 1700 \<le> fst ([(dbl 1800, dbl 10), (dbl 1900, dbl 20), (dbl 2000, dbl 40)] ! 0) \<and>
   interpolateValues [(dbl 1800, dbl 10), (dbl 1900, dbl 20), (dbl 2000, dbl 40)] (dbl 1700) =
     Inr (Fin (dbl 10))"
proof -
  let ?s = "[(dbl 1800, dbl 10), (dbl 1900, dbl 20), (dbl 2000, dbl 40)]"
  have n: "?s \<noteq> []" by simp
  have a: "years_sorted ?s" by (simp add: years_sorted_def ev)
  have y: "dbl 1700 \<le> fst (?s ! 0)" by (simp add: ev)
  from interpolateValues_clamps_before_first [OF n a y] a y show ?thesis by simp
qed

text \<open>
  C3. Duplicate-year guard. The specification asks for a guard that keeps the division by
  zero from being executed and returns a policy value. The source has no such guard:
  on two samples of the year 1800 and the query year 1900 it divides 100 by zero and
  returns \<open>NaN\<close>.
\<close>

theorem interpolateValues_no_guard_counterexample:
  "interpolateValues [(dbl 1800, dbl 10), (dbl 1800, dbl 20)] (dbl 1900) = Inr NaN"
  by (simp add: interpolateValues_def bisect_left.simps ev)

text \<open>
  C3 as amended: when the two samples that the interpolator reads, \<open>values[i]\<close> and
  \<open>values[i - 1]\<close> with \<open>i > 0\<close>, have equal years, the division is executed with the
  divisor zero, and the value returned is never a finite number.
\<close>

theorem interpolateValues_duplicate_year:
  assumes "bisect_left series year 0 (int (length series) - 1) = Inr i" and "0 < i"
    and "fst (series ! nat i) = fst (series ! nat (i - 1))"
  shows "\<exists>v. interpolateValues series year = Inr v \<and>
           v = (let a = series ! nat i; b = series ! nat (i - 1);
                    t = js_div (js_sub (Fin year) (Fin (fst a))) (Fin (dbl 0))
                in js_add (js_mul (Fin (snd a)) (js_sub (Fin (dbl 1)) t))
                          (js_mul (Fin (snd b)) t)) \<and>
           \<not> js_finite v"
proof -
  have ne: "series \<noteq> []"
  proof
    assume "series = []"
    then have "bisect_left series year 0 (int (length series) - 1) = Inr 0"
      by (simp add: bisect_left_stop)
    with assms(1,2) show False by simp
  qed
  then have "0 \<le> int (length series) - 1" by (cases series) simp_all
  from bisect_left_bounds [OF _ this, of series year] assms(1)
  have il: "i < int (length series)" by auto
  have "interpolateValues series year =
      Inr (interpolation (series ! nat i) (series ! nat (i - 1)) year)"
    using interpolateValues_at [OF assms(1) _ il] assms(2) by simp
  with interpolation_zero_divisor [OF assms(3), of year] show ?thesis
    by (simp add: Let_def)
qed

theorem interpolateValues_duplicate_year_witness:
  "bisect_left [(dbl 1800, dbl 10), (dbl 1800, dbl 20)] (dbl 1900) 0 1 = Inr 1 \<and>
   fst ([(dbl 1800, dbl 10), (dbl 1800, dbl 20)] ! 1) =
     fst ([(dbl 1800, dbl 10), (dbl 1800, dbl 20)] ! 0) \<and>
   interpolateValues [(dbl 1800, dbl 10), (dbl 1800, dbl 20)] (dbl 1900) = Inr NaN \<and>
   \<not> js_finite NaN"
proof -
  let ?s = "[(dbl 1800, dbl 10), (dbl 1800, dbl 20)]"
  have b: "bisect_left ?s (dbl 1900) 0 (int (length ?s) - 1) = Inr 1"
    by (simp add: bisect_left.simps ev)
  have p: "(0::int) < 1" by simp
  have e: "fst (?s ! nat 1) = fst (?s ! nat (1 - 1))" by simp
  have v: "interpolateValues ?s (dbl 1900) = Inr NaN"
    by (simp add: interpolateValues_def bisect_left.simps ev)
  from interpolateValues_duplicate_year [OF b p e] b v show ?thesis
    by (simp add: js_finite_def)
qed

text \<open>
  C4. Exact sample hit: on a non-empty series with strictly ascending years, the
  interpolator at the year of the sample \<open>k\<close> returns exactly the value of that sample.
\<close>

theorem interpolateValues_exact_hit:
  assumes "series \<noteq> []" and "years_ascending series" and "k < length series"
  shows "interpolateValues series (fst (series ! k)) = Inr (Fin (snd (series ! k)))"
  using assms(2,3) by (rule interpolateValues_sample)

theorem interpolateValues_exact_hit_witness:
  "years_ascending [(dbl 1800, dbl 10), (dbl 1900, dbl 20), (dbl 2000, dbl 40)] \<and>
   interpolateValues [(dbl 1800, dbl 10), (dbl 1900, dbl 20), (dbl 2000, dbl 40)] (dbl 1900) =
     Inr (Fin (dbl 20)) \<and>
   interpolateValues [(dbl 1800, dbl 10), (dbl 1900, dbl 20), (dbl 2000, dbl 40)] (dbl 2000) =
     Inr (Fin (dbl 40))"
proof -
  let ?s = "[(dbl 1800, dbl 10), (dbl 1900, dbl 20), (dbl 2000, dbl 40)]"
  have n: "?s \<noteq> []" by simp
  have a: "years_ascending ?s" by (simp add: years_ascending_def ev)
  have k1: "1 < length ?s" and k2: "2 < length ?s" by simp_all
  from interpolateValues_exact_hit [OF n a k1] interpolateValues_exact_hit [OF n a k2] a
  show ?thesis by simp
qed

text \<open>
  C5. Monotonicity between samples, as stated for all query years \<open>y1 \<le> y2\<close> between
  two consecutive samples. Each operation of the source rounds, and the rounding can
  reverse the order of two results: between the samples \<open>[1767, 827]\<close> and
  \<open>[1817, 833]\<close>, at the neighbouring doubles 1800.8799728080635 and
  1800.8799728080637, the interpolator returns 831.0655967369677 and then
  831.0655967369676.
\<close>

theorem interpolateValues_not_monotone_counterexample:
  "(let series = [(dbl 1767, dbl 827), (dbl 1817, dbl 833)];
        y1 = dbl (3960176940662785 / 2199023255552);
        y2 = dbl (7920353881325571 / 4398046511104)
    in years_ascending series \<and> values_increasing series \<and>
       fst (series ! 0) \<le> y1 \<and> y1 < y2 \<and> y2 \<le> fst (series ! 1) \<and>
       interpolateValues series y1 = Inr (Fin (dbl (7310130296455169 / 8796093022208))) \<and>
       interpolateValues series y2 = Inr (Fin (dbl (111543736213 / 134217728))) \<and>
       dbl (111543736213 / 134217728) < dbl (7310130296455169 / 8796093022208))"
  by (simp add: years_ascending_def values_increasing_def interpolateValues_def
      bisect_left.simps ev)

text \<open>
  C5 as amended: on a series with strictly ascending years and strictly increasing
  values, for two query years \<open>y1 \<le> y2\<close> between the same two consecutive samples at
  both of which no operation of the source's expression rounds, the interpolator
  returns finite numbers \<open>r1 \<le> r2\<close>.
\<close>

theorem interpolateValues_monotone_between_samples:
  assumes "years_ascending series" and "values_increasing series"
    and "Suc k < length series"
    and "fst (series ! k) \<le> y1" and "y1 \<le> y2" and "y2 \<le> fst (series ! Suc k)"
    and "exact_interpolation (series ! Suc k) (series ! k) y1"
    and "exact_interpolation (series ! Suc k) (series ! k) y2"
  shows "\<exists>r1 r2. interpolateValues series y1 = Inr (Fin r1) \<and>
                 interpolateValues series y2 = Inr (Fin r2) \<and> r1 \<le> r2"
proof -
  let ?a = "series ! Suc k" and ?b = "series ! k"
  have yr: "fst ?b < fst ?a"
    using years_ascending_nth [OF assms(1), of k "Suc k"] assms(3) by simp
  have vl: "snd ?b < snd ?a"
    using assms(2,3) by (simp add: values_increasing_def sorted_wrt_iff_nth_less)
  have in1: "y1 \<le> fst ?a" and in2: "fst ?b \<le> y2" using assms(4,5,6) by simp_all
  from assms(1,3,4) in1 assms(7) obtain r1 where
    1: "interpolateValues series y1 = Inr (Fin r1)" "val r1 = exact_interpolate ?a ?b y1"
    by (rule interpolateValues_segment_exact)
  from assms(1,3) in2 assms(6,8) obtain r2 where
    2: "interpolateValues series y2 = Inr (Fin r2)" "val r2 = exact_interpolate ?a ?b y2"
    by (rule interpolateValues_segment_exact)
  have "exact_interpolate ?a ?b y1 \<le> exact_interpolate ?a ?b y2"
    using yr vl assms(5) by (intro exact_interpolate_mono) simp_all
  then have "r1 \<le> r2" by (simp add: less_eq_double_def 1 2)
  with 1 2 show ?thesis by blast
qed

theorem interpolateValues_monotone_between_samples_witness:
  "years_ascending [(dbl 1800, dbl 10), (dbl 1900, dbl 20), (dbl 2000, dbl 40)] \<and>
   values_increasing [(dbl 1800, dbl 10), (dbl 1900, dbl 20), (dbl 2000, dbl 40)] \<and>
   exact_interpolation (dbl 2000, dbl 40) (dbl 1900, dbl 20) (dbl 1925) \<and>
   exact_interpolation (dbl 2000, dbl 40) (dbl 1900, dbl 20) (dbl 1975) \<and>
   (\<exists>r1 r2. interpolateValues [(dbl 1800, dbl 10), (dbl 1900, dbl 20), (dbl 2000, dbl 40)]
              (dbl 1925) = Inr (Fin r1) \<and>
            interpolateValues [(dbl 1800, dbl 10), (dbl 1900, dbl 20), (dbl 2000, dbl 40)]
              (dbl 1975) = Inr (Fin r2) \<and>
            r1 \<le> r2)"
proof -
  let ?s = "[(dbl 1800, dbl 10), (dbl 1900, dbl 20), (dbl 2000, dbl 40)]"
  have a: "years_ascending ?s" by (simp add: years_ascending_def ev)
  have v: "values_increasing ?s" by (simp add: values_increasing_def ev)
  have k: "Suc 1 < length ?s" by simp
  have lo: "fst (?s ! 1) \<le> dbl 1925" and hi: "dbl 1975 \<le> fst (?s ! Suc 1)"
    by (simp_all add: ev)
  have le: "dbl 1925 \<le> dbl 1975" by (simp add: ev)
  have x1: "exact_interpolation (?s ! Suc 1) (?s ! 1) (dbl 1925)"
    by (simp add: exact_interpolation_def ev)
  have x2: "exact_interpolation (?s ! Suc 1) (?s ! 1) (dbl 1975)"
    by (simp add: exact_interpolation_def ev)
  from interpolateValues_monotone_between_samples [OF a v k lo le hi x1 x2] a v x1 x2
  show ?thesis by simp
qed

text \<open>
  C6. Extrapolation past the last sample, as stated: past the last sample the
  interpolator always yields a value beyond the last sample's value. On a series whose
  last two values are equal the line through them is flat, and at 2000 the value
  returned for \<open>[[1800, 10], [1900, 10]]\<close> is the last sample's value itself. Rounding
  can also leave the result on the near side: at 2009 the same series gives
  9.999999999999998, and for \<open>[[1900, 999999], [2000, 1000000]]\<close> and the first double
  after 2000 the interpolator returns 999999.9999999999.
\<close>

theorem interpolateValues_past_last_counterexample:
  "(let flat = [(dbl 1800, dbl 10), (dbl 1900, dbl 10)];
        rising = [(dbl 1900, dbl 999999), (dbl 2000, dbl 1000000)];
        year = dbl (8796093022208001 / 4398046511104)
    in interpolateValues flat (dbl 2000) = Inr (Fin (snd (flat ! (length flat - 1)))) \<and>
       interpolateValues flat (dbl 2009) = Inr (Fin (dbl (5629499534213119 / 562949953421312))) \<and>
       dbl (5629499534213119 / 562949953421312) < snd (flat ! (length flat - 1)) \<and>
       fst (rising ! (length rising - 1)) < year \<and>
       interpolateValues rising year = Inr (Fin (dbl (8589934591999999 / 8589934592))) \<and>
       dbl (8589934591999999 / 8589934592) < snd (rising ! (length rising - 1)))"
  by (simp add: interpolateValues_def bisect_left.simps ev)

text \<open>
  C6 as amended: on a series of at least two samples with strictly ascending years and
  a query year after the last sample's year, the bisector returns the last index,
  because its upper bound is \<open>values.length - 1\<close>, and the interpolator does not clamp:
  it returns the expression of the source for \<open>a = series[length - 1]\<close> and
  \<open>b = series[length - 2]\<close>. When none of its operations rounds, that is the exact
  linear extrapolation through the last two samples; it lies beyond the last sample's
  value, on the side away from the sample before it, when the last two values differ,
  and is the last sample's value when they are equal.
\<close>

theorem interpolateValues_past_last:
  assumes "2 \<le> length series" and "years_ascending series"
    and "fst (series ! (length series - 1)) < year"
  shows "(let a = series ! (length series - 1); b = series ! (length series - 2)
          in bisect_left series year 0 (int (length series) - 1) = Inr (int (length series) - 1) \<and>
             interpolateValues series year = Inr (interpolation a b year) \<and>
             (exact_interpolation a b year \<longrightarrow>
                (\<exists>v. interpolateValues series year = Inr (Fin v) \<and>
                     val v = exact_interpolate a b year \<and>
                     (snd b < snd a \<longrightarrow> snd a < v) \<and>
                     (snd a < snd b \<longrightarrow> v < snd a) \<and>
                     (snd b = snd a \<longrightarrow> v = snd a))))"
proof -
  define k where "k = length series - 2"
  have k: "length series - 1 = Suc k" "length series - 2 = k" "Suc k < length series"
    "int (length series) - 1 = int (Suc k)"
    using assms(1) by (simp_all add: k_def)
  let ?a = "series ! Suc k" and ?b = "series ! k"
  have ne: "series \<noteq> []" using assms(1) by (cases series) simp_all
  have yr: "fst ?b < fst ?a"
    using years_ascending_nth [OF assms(2), of k "Suc k"] k(3) by simp
  then have neq: "fst ?a \<noteq> fst ?b" by simp
  have past: "fst ?a < year" using assms(3) unfolding k(1) .
  have ix: "bisect_left series year 0 (int (length series) - 1) = Inr (int (Suc k))"
    using bisect_index_past [OF assms(2) ne assms(3)] unfolding k(1) .
  then have r: "interpolateValues series year = Inr (interpolation ?a ?b year)"
    using k(3) by (rule interpolateValues_later)
  note d = exact_interpolate_past [OF yr past]
  have ex: "\<exists>v. interpolateValues series year = Inr (Fin v) \<and>
               val v = exact_interpolate ?a ?b year \<and>
               (snd ?b < snd ?a \<longrightarrow> snd ?a < v) \<and>
               (snd ?a < snd ?b \<longrightarrow> v < snd ?a) \<and>
               (snd ?b = snd ?a \<longrightarrow> v = snd ?a)"
    if "exact_interpolation ?a ?b year"
  proof -
    from neq that obtain v where v: "interpolation ?a ?b year = Fin v"
      "val v = exact_interpolate ?a ?b year"
      by (rule interpolation_exact)
    have up: "snd ?a < v" if "snd ?b < snd ?a"
    proof -
      have "0 < (val (snd ?a) - val (snd ?b)) *
                ((val year - val (fst ?a)) / (val (fst ?a) - val (fst ?b)))"
        using that d(2) by (intro mult_pos_pos) (simp_all add: less_double_def)
      with d(1) v(2) show ?thesis by (simp add: less_double_def)
    qed
    have down: "v < snd ?a" if "snd ?a < snd ?b"
    proof -
      have "(val (snd ?a) - val (snd ?b)) *
              ((val year - val (fst ?a)) / (val (fst ?a) - val (fst ?b))) < 0"
        using that d(2) by (intro mult_neg_pos) (simp_all add: less_double_def)
      with d(1) v(2) show ?thesis by (simp add: less_double_def)
    qed
    have flat: "v = snd ?a" if "snd ?b = snd ?a"
    proof -
      from d(1) that v(2) have "val v = val (snd ?a)" by simp
      then show ?thesis by (simp only: val_inject)
    qed
    from r v up down flat show ?thesis by simp
  qed
  have c1: "bisect_left series year 0 (int (length series) - 1) = Inr (int (length series) - 1)"
    using ix k(4) by simp
  show ?thesis
    unfolding Let_def k(1,2) using c1 r ex by blast
qed

theorem interpolateValues_past_last_witness:
  "years_ascending [(dbl 1800, dbl 10), (dbl 1900, dbl 20), (dbl 2000, dbl 40)] \<and>
   fst ([(dbl 1800, dbl 10), (dbl 1900, dbl 20), (dbl 2000, dbl 40)] ! 2) < dbl 2100 \<and>
   exact_interpolation (dbl 2000, dbl 40) (dbl 1900, dbl 20) (dbl 2100) \<and>
   bisect_left [(dbl 1800, dbl 10), (dbl 1900, dbl 20), (dbl 2000, dbl 40)] (dbl 2100) 0 2 =
     Inr 2 \<and>
   interpolateValues [(dbl 1800, dbl 10), (dbl 1900, dbl 20), (dbl 2000, dbl 40)] (dbl 2100) =
     Inr (Fin (dbl 60)) \<and>
   dbl 40 < dbl 60"
proof -
  let ?s = "[(dbl 1800, dbl 10), (dbl 1900, dbl 20), (dbl 2000, dbl 40)]"
  have l: "2 \<le> length ?s" by simp
  have a: "years_ascending ?s" by (simp add: years_ascending_def ev)
  have y: "fst (?s ! (length ?s - 1)) < dbl 2100" by (simp add: ev)
  have x: "exact_interpolation (dbl 2000, dbl 40) (dbl 1900, dbl 20) (dbl 2100)"
    by (simp add: exact_interpolation_def ev)
  have v: "interpolateValues ?s (dbl 2100) = Inr (Fin (dbl 60))"
    by (simp add: interpolateValues_def bisect_left.simps ev)
  have c: "dbl 40 < dbl 60" by (simp add: ev)
  from interpolateValues_past_last [OF l a y] a y x v c show ?thesis
    by (simp add: Let_def)
qed

text \<open>
  C9. Worked example: on the series \<open>[[1800, 10], [1900, 20], [2000, 40]]\<close> the
  interpolator returns exactly 30 for the year 1950, half way between the samples of
  1900 and 2000.
\<close>

theorem interpolateValues_example_1950:
  "interpolateValues [(dbl 1800, dbl 10), (dbl 1900, dbl 20), (dbl 2000, dbl 40)] (dbl 1950) =
     Inr (Fin (dbl 30))"
  by (simp add: interpolateValues_def bisect_left.simps ev)

text \<open>
  C10. Index safety: on a non-empty series, for every query year, the bisector returns
  an index \<open>i\<close> with \<open>0 \<le> i \<le> length - 1\<close>, \<open>values[i]\<close> is defined,
  \<open>values[i - 1]\<close> is defined whenever \<open>i > 0\<close>, and the interpolator returns a number
  and throws no \<open>TypeError\<close>.
\<close>

theorem interpolateValues_index_safety:
  assumes "series \<noteq> []"
  shows "\<exists>i a v. bisect_left series year 0 (int (length series) - 1) = Inr i \<and>
           0 \<le> i \<and> i \<le> int (length series) - 1 \<and>
           js_index series i = Some a \<and>
           (0 < i \<longrightarrow> js_index series (i - 1) \<noteq> None) \<and>
           interpolateValues series year = Inr v"
proof -
  have "0 \<le> int (length series) - 1" using assms by (cases series) simp_all
  from bisect_left_bounds [OF _ this, of series year]
  obtain i where i: "bisect_left series year 0 (int (length series) - 1) = Inr i"
    "0 \<le> i" "i \<le> int (length series) - 1" by auto
  have ix: "js_index series i = Some (series ! nat i)"
    using i by (simp add: js_index_def)
  have ix': "js_index series (i - 1) \<noteq> None" if "0 < i"
    using i that by (simp add: js_index_def)
  have "\<exists>v. interpolateValues series year = Inr v"
    using interpolateValues_at [OF i(1,2)] i(3) by simp
  with i ix ix' show ?thesis by blast
qed

theorem interpolateValues_index_safety_witness:
  "bisect_left [(dbl 1800, dbl 10), (dbl 1900, dbl 20), (dbl 2000, dbl 40)] (dbl 2100) 0 2 =
     Inr 2 \<and>
   js_index [(dbl 1800, dbl 10), (dbl 1900, dbl 20), (dbl 2000, dbl 40)] 2 =
     Some (dbl 2000, dbl 40) \<and>
   js_index [(dbl 1800, dbl 10), (dbl 1900, dbl 20), (dbl 2000, dbl 40)] 1 \<noteq> None \<and>
   (\<exists>v. interpolateValues [(dbl 1800, dbl 10), (dbl 1900, dbl 20), (dbl 2000, dbl 40)]
          (dbl 2100) = Inr v)"
proof -
  let ?s = "[(dbl 1800, dbl 10), (dbl 1900, dbl 20), (dbl 2000, dbl 40)]"
  have n: "?s \<noteq> []" by simp
  have b: "bisect_left ?s (dbl 2100) 0 2 = Inr 2"
    by (simp add: bisect_left.simps ev)
  from interpolateValues_index_safety [OF n, of "dbl 2100"] b show ?thesis
    by (auto simp: js_index_def)
qed

subsection \<open>The frame and its draw order\<close>

text \<open>
  C7. Frame composition: for a list of nations whose three series are all non-empty
  and any query year, the frame has exactly one snapshot for each nation, in the order
  of the list; each snapshot carries the name and the region of its nation unchanged,
  and its three numbers are what the interpolator returns for the nation's series at
  the query year.
\<close>

theorem interpolateData_shape_and_order:
  assumes "\<forall>d \<in> set nations. nation.income d \<noteq> [] \<and> nation.population d \<noteq> [] \<and>
             nation.lifeExpectancy d \<noteq> []"
  shows "\<exists>frame. interpolateData nations year = Inr frame \<and>
           length frame = length nations \<and>
           (\<forall>k < length nations.
              snapshot.name (frame ! k) = nation.name (nations ! k) \<and>
              snapshot.region (frame ! k) = nation.region (nations ! k) \<and>
              Inr (snapshot.income (frame ! k)) =
                interpolateValues (nation.income (nations ! k)) year \<and>
              Inr (snapshot.population (frame ! k)) =
                interpolateValues (nation.population (nations ! k)) year \<and>
              Inr (snapshot.lifeExpectancy (frame ! k)) =
                interpolateValues (nation.lifeExpectancy (nations ! k)) year)"
  using assms
proof (induction nations)
  case Nil
  show ?case by simp
next
  case (Cons d ds)
  from Cons.prems obtain inc pop life where
    v: "interpolateValues (nation.income d) year = Inr inc"
       "interpolateValues (nation.population d) year = Inr pop"
       "interpolateValues (nation.lifeExpectancy d) year = Inr life"
    using interpolateValues_returns [of "nation.income d" year]
      interpolateValues_returns [of "nation.population d" year]
      interpolateValues_returns [of "nation.lifeExpectancy d" year]
    by auto
  from Cons.IH Cons.prems obtain rest where
    r: "interpolateData ds year = Inr rest" "length rest = length ds"
    and each: "\<And>k. k < length ds \<Longrightarrow>
              snapshot.name (rest ! k) = nation.name (ds ! k) \<and>
              snapshot.region (rest ! k) = nation.region (ds ! k) \<and>
              Inr (snapshot.income (rest ! k)) =
                interpolateValues (nation.income (ds ! k)) year \<and>
              Inr (snapshot.population (rest ! k)) =
                interpolateValues (nation.population (ds ! k)) year \<and>
              Inr (snapshot.lifeExpectancy (rest ! k)) =
                interpolateValues (nation.lifeExpectancy (ds ! k)) year"
    by auto
  let ?s = "\<lparr>snapshot.name = nation.name d, region = nation.region d, income = inc,
                population = pop, lifeExpectancy = life\<rparr>"
  have res: "interpolateData (d # ds) year = Inr (?s # rest)"
    using v r(1) by simp
  have "snapshot.name ((?s # rest) ! k) = nation.name ((d # ds) ! k) \<and>
        snapshot.region ((?s # rest) ! k) = nation.region ((d # ds) ! k) \<and>
        Inr (snapshot.income ((?s # rest) ! k)) =
          interpolateValues (nation.income ((d # ds) ! k)) year \<and>
        Inr (snapshot.population ((?s # rest) ! k)) =
          interpolateValues (nation.population ((d # ds) ! k)) year \<and>
        Inr (snapshot.lifeExpectancy ((?s # rest) ! k)) =
          interpolateValues (nation.lifeExpectancy ((d # ds) ! k)) year"
    if "k < length (d # ds)" for k
  proof (cases k)
    case 0
    with v show ?thesis by simp
  next
    case (Suc j)
    with that each [of j] show ?thesis by simp
  qed
  with res r(2) show ?case by simp
qed

theorem interpolateData_shape_and_order_witness:
  "interpolateData
     [\<lparr>nation.name = ''Ruritania'', region = ''Europe'',
       income = [(dbl 1800, dbl 100), (dbl 1900, dbl 300)],
       population = [(dbl 1800, dbl 10)],
       lifeExpectancy = [(dbl 1800, dbl 30), (dbl 2000, dbl 70)]\<rparr>,
      \<lparr>nation.name = ''Freedonia'', region = ''America'', income = [(dbl 1850, dbl 500)],
       population = [(dbl 1800, dbl 20), (dbl 1900, dbl 40)],
       lifeExpectancy = [(dbl 1900, dbl 50)]\<rparr>] (dbl 1850) =
   Inr [\<lparr>snapshot.name = ''Ruritania'', region = ''Europe'', income = Fin (dbl 200),
          population = Fin (dbl 10), lifeExpectancy = Fin (dbl 40)\<rparr>,
        \<lparr>snapshot.name = ''Freedonia'', region = ''America'', income = Fin (dbl 500),
          population = Fin (dbl 30), lifeExpectancy = Fin (dbl 50)\<rparr>]"
proof -
  let ?ns = "[\<lparr>nation.name = ''Ruritania'', region = ''Europe'',
       income = [(dbl 1800, dbl 100), (dbl 1900, dbl 300)],
       population = [(dbl 1800, dbl 10)],
       lifeExpectancy = [(dbl 1800, dbl 30), (dbl 2000, dbl 70)]\<rparr>,
      \<lparr>nation.name = ''Freedonia'', region = ''America'', income = [(dbl 1850, dbl 500)],
       population = [(dbl 1800, dbl 20), (dbl 1900, dbl 40)],
       lifeExpectancy = [(dbl 1900, dbl 50)]\<rparr>]"
  have h: "\<forall>d \<in> set ?ns. nation.income d \<noteq> [] \<and> nation.population d \<noteq> [] \<and>
             nation.lifeExpectancy d \<noteq> []" by simp
  have v:
    "interpolateValues [(dbl 1800, dbl 100), (dbl 1900, dbl 300)] (dbl 1850) =
       Inr (Fin (dbl 200))"
    "interpolateValues [(dbl 1800, dbl 10)] (dbl 1850) = Inr (Fin (dbl 10))"
    "interpolateValues [(dbl 1800, dbl 30), (dbl 2000, dbl 70)] (dbl 1850) =
       Inr (Fin (dbl 40))"
    "interpolateValues [(dbl 1850, dbl 500)] (dbl 1850) = Inr (Fin (dbl 500))"
    "interpolateValues [(dbl 1800, dbl 20), (dbl 1900, dbl 40)] (dbl 1850) =
       Inr (Fin (dbl 30))"
    "interpolateValues [(dbl 1900, dbl 50)] (dbl 1850) = Inr (Fin (dbl 50))"
    by (simp_all add: interpolateValues_def bisect_left.simps ev)
  from interpolateData_shape_and_order [OF h, of "dbl 1850"] v show ?thesis by simp
qed

text \<open>
  C8. Draw-order sortedness, as stated for every list of snapshots. A population
  can be \<open>NaN\<close>, which the interpolator returns for a series with a repeated year, and
  every comparison with \<open>NaN\<close> is false: the frame below holds such a snapshot, and
  after the sort its adjacent pair is not in the order \<open>population(a) >= population(b)\<close>.
\<close>

theorem array_sort_order_nan_counterexample:
  "interpolateData
     [\<lparr>nation.name = ''Ruritania'', region = ''Europe'', income = [(dbl 1800, dbl 100)],
       population = [(dbl 1800, dbl 10), (dbl 1800, dbl 20)],
       lifeExpectancy = [(dbl 1800, dbl 30)]\<rparr>,
      \<lparr>nation.name = ''Freedonia'', region = ''America'', income = [(dbl 1800, dbl 500)],
       population = [(dbl 1800, dbl 5)], lifeExpectancy = [(dbl 1800, dbl 50)]\<rparr>]
     (dbl 1900) =
   Inr [\<lparr>snapshot.name = ''Ruritania'', region = ''Europe'', income = Fin (dbl 100),
          population = NaN, lifeExpectancy = Fin (dbl 30)\<rparr>,
        \<lparr>snapshot.name = ''Freedonia'', region = ''America'', income = Fin (dbl 500),
          population = Fin (dbl 5), lifeExpectancy = Fin (dbl 50)\<rparr>] \<and>
   \<not> successively (\<lambda>a b. js_ge (snapshot.population a) (snapshot.population b))
     (array_sort order
       [\<lparr>snapshot.name = ''Ruritania'', region = ''Europe'', income = Fin (dbl 100),
          population = NaN, lifeExpectancy = Fin (dbl 30)\<rparr>,
        \<lparr>snapshot.name = ''Freedonia'', region = ''America'', income = Fin (dbl 500),
          population = Fin (dbl 5), lifeExpectancy = Fin (dbl 50)\<rparr>])"
proof (rule conjI)
  have v: "interpolateValues [(dbl 1800, dbl 100)] (dbl 1900) = Inr (Fin (dbl 100))"
    "interpolateValues [(dbl 1800, dbl 10), (dbl 1800, dbl 20)] (dbl 1900) = Inr NaN"
    "interpolateValues [(dbl 1800, dbl 30)] (dbl 1900) = Inr (Fin (dbl 30))"
    "interpolateValues [(dbl 1800, dbl 500)] (dbl 1900) = Inr (Fin (dbl 500))"
    "interpolateValues [(dbl 1800, dbl 5)] (dbl 1900) = Inr (Fin (dbl 5))"
    "interpolateValues [(dbl 1800, dbl 50)] (dbl 1900) = Inr (Fin (dbl 50))"
    by (simp_all add: interpolateValues_def bisect_left.simps ev)
  show "interpolateData
     [\<lparr>nation.name = ''Ruritania'', region = ''Europe'', income = [(dbl 1800, dbl 100)],
       population = [(dbl 1800, dbl 10), (dbl 1800, dbl 20)],
       lifeExpectancy = [(dbl 1800, dbl 30)]\<rparr>,
      \<lparr>nation.name = ''Freedonia'', region = ''America'', income = [(dbl 1800, dbl 500)],
       population = [(dbl 1800, dbl 5)], lifeExpectancy = [(dbl 1800, dbl 50)]\<rparr>]
     (dbl 1900) =
   Inr [\<lparr>snapshot.name = ''Ruritania'', region = ''Europe'', income = Fin (dbl 100),
          population = NaN, lifeExpectancy = Fin (dbl 30)\<rparr>,
        \<lparr>snapshot.name = ''Freedonia'', region = ''America'', income = Fin (dbl 500),
          population = Fin (dbl 5), lifeExpectancy = Fin (dbl 50)\<rparr>]"
    by (simp add: v)
  show "\<not> successively (\<lambda>a b. js_ge (snapshot.population a) (snapshot.population b))
     (array_sort order
       [\<lparr>snapshot.name = ''Ruritania'', region = ''Europe'', income = Fin (dbl 100),
          population = NaN, lifeExpectancy = Fin (dbl 30)\<rparr>,
        \<lparr>snapshot.name = ''Freedonia'', region = ''America'', income = Fin (dbl 500),
          population = Fin (dbl 5), lifeExpectancy = Fin (dbl 50)\<rparr>])"
    by (simp add: order_def radius_def sort_compare_def js_gt_def)
qed

text \<open>
  C8 as amended: for every list of snapshots none of whose populations is \<open>NaN\<close>, the
  list sorted with the comparator \<open>order\<close> holds the same snapshots, and every adjacent
  pair \<open>(a, b)\<close> of it satisfies \<open>population(a) >= population(b)\<close>.
\<close>

theorem array_sort_order_descending:
  assumes "\<forall>s \<in> set frame. snapshot.population s \<noteq> NaN"
  shows "mset (array_sort order frame) = mset frame \<and>
         successively (\<lambda>a b. js_ge (snapshot.population a) (snapshot.population b))
           (array_sort order frame)"
  using successively_array_sort [of frame] assms
  by (simp add: radius_def mset_array_sort)

theorem array_sort_order_descending_witness:
  "map snapshot.population
     (array_sort order
       [\<lparr>snapshot.name = ''A'', region = ''R'', income = Fin (dbl 1), population = Fin (dbl 5),
          lifeExpectancy = Fin (dbl 1)\<rparr>,
        \<lparr>snapshot.name = ''B'', region = ''R'', income = Fin (dbl 1), population = Fin (dbl 20),
          lifeExpectancy = Fin (dbl 1)\<rparr>,
        \<lparr>snapshot.name = ''C'', region = ''R'', income = Fin (dbl 1), population = Fin (dbl 10),
          lifeExpectancy = Fin (dbl 1)\<rparr>]) = [Fin (dbl 20), Fin (dbl 10), Fin (dbl 5)] \<and>
   successively (\<lambda>a b. js_ge (snapshot.population a) (snapshot.population b))
     (array_sort order
       [\<lparr>snapshot.name = ''A'', region = ''R'', income = Fin (dbl 1), population = Fin (dbl 5),
          lifeExpectancy = Fin (dbl 1)\<rparr>,
        \<lparr>snapshot.name = ''B'', region = ''R'', income = Fin (dbl 1), population = Fin (dbl 20),
          lifeExpectancy = Fin (dbl 1)\<rparr>,
        \<lparr>snapshot.name = ''C'', region = ''R'', income = Fin (dbl 1), population = Fin (dbl 10),
          lifeExpectancy = Fin (dbl 1)\<rparr>])"
proof -
  let ?f = "[\<lparr>snapshot.name = ''A'', region = ''R'', income = Fin (dbl 1), population = Fin (dbl 5),
          lifeExpectancy = Fin (dbl 1)\<rparr>,
        \<lparr>snapshot.name = ''B'', region = ''R'', income = Fin (dbl 1), population = Fin (dbl 20),
          lifeExpectancy = Fin (dbl 1)\<rparr>,
        \<lparr>snapshot.name = ''C'', region = ''R'', income = Fin (dbl 1), population = Fin (dbl 10),
          lifeExpectancy = Fin (dbl 1)\<rparr>]"
  have h: "\<forall>s \<in> set ?f. snapshot.population s \<noteq> NaN" by simp
  have m: "map snapshot.population (array_sort order ?f) = [Fin (dbl 20), Fin (dbl 10), Fin (dbl 5)]"
    by (simp add: order_def radius_def sort_compare_def js_gt_def ev)
  from array_sort_order_descending [OF h] m show ?thesis by simp
qed

end
